theory Spec2Isabelle
  imports Main "HOL-Library.Word" "HOL-Library.Char_ord" "HOL-Library.List_Lexorder"
    "HOL-Library.Multiset"
begin

section \<open>Buffers and the errors of the platform\<close>

text \<open>
  A Node \<open>Buffer\<close> is a sequence of bytes. A byte is modelled by \<^typ>\<open>char\<close>, HOL's
  type of 8-bit values, so that a tag such as \<open>Buffer.from('moov', 'ascii')\<close> is the
  literal \<open>''moov''\<close>. Offsets and sizes are natural numbers: \<open>findAndParseBox\<close> is
  private to its module and every caller starts it at offset 0.
\<close>

type_synonym buffer = "char list"

datatype error =
    RangeError      \<comment> \<open>a read or write outside a buffer, a value outside its field\<close>
  | TypeError       \<comment> \<open>a property read of \<open>null\<close> or \<open>undefined\<close>, a wrong argument type\<close>
  | SyntaxError     \<comment> \<open>\<open>JSON.parse\<close> on a text that is not JSON\<close>
  | ENOENT          \<comment> \<open>\<open>readFileSync\<close> on a path that does not exist\<close>
  | KeyError        \<comment> \<open>\<open>createPublicKey\<close> or \<open>verify\<close> refusing its key material\<close>
  | NoMoovBox       \<comment> \<open>\<open>new Error('MP4 file does not contain moov box')\<close>\<close>
  | NoEmbedded      \<comment> \<open>\<open>new Error('No embedded metadata found')\<close>\<close>
  | Unsupported     \<comment> \<open>\<open>new Error('Unsupported media type ...')\<close>\<close>

text \<open>\<open>buf.subarray(start, end)\<close>: both ends are clamped to the buffer, and an end
  before the start gives the empty buffer.\<close>

definition subarray :: "buffer \<Rightarrow> nat \<Rightarrow> nat \<Rightarrow> buffer" where
  "subarray b s e = take (e - s) (drop s b)"

definition subarray_from :: "buffer \<Rightarrow> nat \<Rightarrow> buffer" where
  "subarray_from b s = drop s b"

text \<open>Big-endian value of a run of bytes.\<close>

definition be_nat :: "buffer \<Rightarrow> nat" where
  "be_nat bs = foldl (\<lambda>a c. a * 256 + of_char c) 0 bs"

text \<open>\<open>buf.readUInt32BE(offset)\<close> and \<open>buf.readBigUInt64BE(offset)\<close> throw a
  \<open>RangeError\<close> when the field does not lie inside the buffer.\<close>

definition readUInt32BE :: "buffer \<Rightarrow> nat \<Rightarrow> error + nat" where
  "readUInt32BE b off =
     (if off + 4 \<le> length b then Inr (be_nat (take 4 (drop off b))) else Inl RangeError)"

definition readUInt64BE :: "buffer \<Rightarrow> nat \<Rightarrow> error + nat" where
  "readUInt64BE b off =
     (if off + 8 \<le> length b then Inr (be_nat (take 8 (drop off b))) else Inl RangeError)"

text \<open>
  \<open>Number(x)\<close> of a 64-bit \<open>bigint\<close> is the nearest double, ties to even: exact below
  \<open>2^53\<close>, and above it a multiple of \<open>2^e\<close> where \<open>e\<close> is the number of bits beyond 53.
\<close>

definition double_exponent :: "nat \<Rightarrow> nat" where
  "double_exponent n =
     length (filter (\<lambda>j. 2 ^ j \<le> n) [53, 54, 55, 56, 57, 58, 59, 60, 61, 62, 63])"

definition Number_of_bigint :: "nat \<Rightarrow> nat" where
  "Number_of_bigint n =
     (if n < 2 ^ 53 then n
      else let e = double_exponent n; q = n div 2 ^ e; r = n mod 2 ^ e; half = 2 ^ (e - 1)
           in if half < r \<or> (r = half \<and> odd q) then (q + 1) * 2 ^ e else q * 2 ^ e)"

text \<open>\<open>buf.writeUInt32BE(value, 0)\<close> throws a \<open>RangeError\<close> for a value of \<open>2^32\<close> or
  more; otherwise it stores these four bytes.\<close>

definition u32be :: "nat \<Rightarrow> buffer" where
  "u32be n = [char_of (n div 2 ^ 24), char_of (n div 2 ^ 16), char_of (n div 2 ^ 8), char_of n]"

definition writeUInt32BE :: "nat \<Rightarrow> error + buffer" where
  "writeUInt32BE n = (if n < 2 ^ 32 then Inr (u32be n) else Inl RangeError)"

section \<open>The container box engine\<close>

text \<open>The \<open>Box\<close> interface of \<open>metadata-embed.ts\<close>.\<close>

record Box =
  size :: nat
  type :: string
  data :: buffer
  startOffset :: nat

text \<open>
  One pass through the body of the \<open>while\<close> loop of \<open>findAndParseBox\<close>, for a loop
  entered at \<open>offset\<close>: it breaks, returns a box, throws, or goes on at a new offset.
\<close>

datatype 'a step = Break | Return 'a | Throw error | Continue nat

definition findAndParseBox_tag :: "buffer \<Rightarrow> string \<Rightarrow> nat \<Rightarrow> nat \<Rightarrow> nat \<Rightarrow> Box step" where
  "findAndParseBox_tag buffer boxType offsetStart sz offset =
     (if offset + 4 > length buffer then Break
      else if subarray buffer offset (offset + 4) = boxType then
        let dataStart = offset + 4;
            dataEnd = offsetStart + sz;
            dataOffset = (if boxType = ''meta'' then 4 else 0)
        in Return \<lparr> size = sz, type = boxType,
                     data = subarray buffer (dataStart + dataOffset) dataEnd,
                     startOffset = offsetStart \<rparr>
      else if sz = 0 then Break
      else Continue (offsetStart + sz))"

definition findAndParseBox_body :: "buffer \<Rightarrow> string \<Rightarrow> nat \<Rightarrow> Box step" where
  "findAndParseBox_body buffer boxType offset =
     (case readUInt32BE buffer offset of
        Inl e \<Rightarrow> Throw e
      | Inr sz \<Rightarrow>
          if sz = 1 then
            (if offset + 16 > length buffer then Break
             else case readUInt64BE buffer (offset + 8) of
                    Inl e \<Rightarrow> Throw e
                  | Inr big \<Rightarrow>
                      findAndParseBox_tag buffer boxType offset (Number_of_bigint big) (offset + 16))
          else findAndParseBox_tag buffer boxType offset sz (offset + 4))"

lemma findAndParseBox_body_Continue:
  "findAndParseBox_body buffer boxType offset = Continue off' \<Longrightarrow> offset < off'"
  by (auto simp: findAndParseBox_body_def findAndParseBox_tag_def Let_def
           split: sum.splits if_splits)

text \<open>The loop itself: \<open>while (offset < buffer.length - 8)\<close>, and \<open>return null\<close> after it.\<close>

function findAndParseBox_from :: "buffer \<Rightarrow> string \<Rightarrow> nat \<Rightarrow> error + Box option" where
  "findAndParseBox_from buffer boxType offset =
     (if offset + 8 < length buffer then
        (case findAndParseBox_body buffer boxType offset of
           Break \<Rightarrow> Inr None
         | Return box \<Rightarrow> Inr (Some box)
         | Throw e \<Rightarrow> Inl e
         | Continue off' \<Rightarrow> findAndParseBox_from buffer boxType off')
      else Inr None)"
  by pat_completeness auto
termination
  by (relation "measure (\<lambda>(buffer, boxType, offset). length buffer - offset)")
     (auto dest: findAndParseBox_body_Continue)

declare findAndParseBox_from.simps [simp del]

definition findAndParseBox :: "buffer \<Rightarrow> string \<Rightarrow> error + Box option" where
  "findAndParseBox buffer boxType = findAndParseBox_from buffer boxType 0"


subsection \<open>What the scanner reads of a box header\<close>

text \<open>
  The size the scanner takes for the box at \<open>off\<close>, and where it reads that box's tag:
  the 32-bit field, or, when that field holds 1, the 64-bit field at bytes 8 to 15 of the
  box, the tag then being read at bytes 16 to 19.
\<close>

definition declared_size :: "buffer \<Rightarrow> nat \<Rightarrow> nat" where
  "declared_size buffer off =
     (let sz = be_nat (subarray buffer off (off + 4))
      in if sz = 1 then Number_of_bigint (be_nat (subarray buffer (off + 8) (off + 16))) else sz)"

definition tag_offset :: "buffer \<Rightarrow> nat \<Rightarrow> nat" where
  "tag_offset buffer off =
     (if be_nat (subarray buffer off (off + 4)) = 1 then off + 16 else off + 4)"

text \<open>The offsets at which a scan started at \<open>start\<close> enters the loop body.\<close>

inductive scan_reaches :: "buffer \<Rightarrow> string \<Rightarrow> nat \<Rightarrow> nat \<Rightarrow> bool"
  for buffer :: buffer and boxType :: string and start :: nat where
  reach_start: "scan_reaches buffer boxType start start"
| reach_next: "scan_reaches buffer boxType start off \<Longrightarrow> off + 8 < length buffer \<Longrightarrow>
     findAndParseBox_body buffer boxType off = Continue off' \<Longrightarrow>
     scan_reaches buffer boxType start off'"

lemma scan_reaches_result:
  "scan_reaches buffer boxType start off \<Longrightarrow>
   findAndParseBox_from buffer boxType start = findAndParseBox_from buffer boxType off"
proof (induction rule: scan_reaches.induct)
  case reach_start
  show ?case by simp
next
  case (reach_next off off')
  have "findAndParseBox_from buffer boxType off = findAndParseBox_from buffer boxType off'"
    using reach_next.hyps(2,3) by (subst findAndParseBox_from.simps) simp
  with reach_next.IH show ?case by simp
qed

lemma findAndParseBox_body_no_throw:
  "off + 8 < length buffer \<Longrightarrow> findAndParseBox_body buffer boxType off \<noteq> Throw e"
  by (auto simp: findAndParseBox_body_def findAndParseBox_tag_def readUInt32BE_def
        readUInt64BE_def Let_def split: sum.splits if_splits)

lemma findAndParseBox_from_returns:
  "\<exists>r. findAndParseBox_from buffer boxType off = Inr r"
proof (induction buffer boxType off rule: findAndParseBox_from.induct)
  case (1 buffer boxType offset)
  show ?case
  proof (cases "offset + 8 < length buffer")
    case False
    then show ?thesis by (subst findAndParseBox_from.simps) simp
  next
    case True
    show ?thesis
    proof (cases "findAndParseBox_body buffer boxType offset")
      case Break
      with True show ?thesis by (subst findAndParseBox_from.simps) simp
    next
      case (Return box)
      with True show ?thesis by (subst findAndParseBox_from.simps) simp
    next
      case (Throw e)
      with findAndParseBox_body_no_throw [OF True] show ?thesis by blast
    next
      case (Continue off')
      with True "1.IH" [of off'] show ?thesis by (subst findAndParseBox_from.simps) simp
    qed
  qed
qed

lemma scan_stops:
  assumes "off + 8 < length buffer"
    and "subarray buffer (tag_offset buffer off) (tag_offset buffer off + 4) \<noteq> boxType"
    and "declared_size buffer off = 0 \<or> length buffer \<le> off + declared_size buffer off"
  shows "findAndParseBox_from buffer boxType off = Inr None"
proof -
  have "findAndParseBox_body buffer boxType off = Break \<or>
        (\<exists>off'. findAndParseBox_body buffer boxType off = Continue off' \<and> length buffer \<le> off')"
    using assms
    by (auto simp: findAndParseBox_body_def findAndParseBox_tag_def readUInt32BE_def
          readUInt64BE_def declared_size_def tag_offset_def subarray_def Let_def
          split: if_splits)
  then show ?thesis
  proof
    assume "findAndParseBox_body buffer boxType off = Break"
    then show ?thesis using assms(1) by (subst findAndParseBox_from.simps) simp
  next
    assume "\<exists>off'. findAndParseBox_body buffer boxType off = Continue off' \<and> length buffer \<le> off'"
    then obtain off' where c: "findAndParseBox_body buffer boxType off = Continue off'"
      and l: "length buffer \<le> off'" by blast
    have "findAndParseBox_from buffer boxType off' = Inr None"
      using l by (subst findAndParseBox_from.simps) simp
    then show ?thesis using assms(1) c by (subst findAndParseBox_from.simps) simp
  qed
qed

lemma scan_match:
  assumes a1: "off + 8 < length buffer"
    and a2: "tag_offset buffer off + 4 \<le> length buffer"
    and a3: "subarray buffer (tag_offset buffer off) (tag_offset buffer off + 4) = boxType"
  shows "findAndParseBox_from buffer boxType off =
     Inr (Some \<lparr> size = declared_size buffer off, type = boxType,
                  data = subarray buffer
                    (tag_offset buffer off + 4 + (if boxType = ''meta'' then 4 else 0))
                    (off + declared_size buffer off),
                  startOffset = off \<rparr>)"
proof -
  have s4: "subarray buffer off (off + 4) = take 4 (drop off buffer)"
    by (simp add: subarray_def)
  have s8: "subarray buffer (off + 8) (off + 16) = take 8 (drop (off + 8) buffer)"
    by (simp add: subarray_def)
  have "findAndParseBox_body buffer boxType off =
     Return \<lparr> size = declared_size buffer off, type = boxType,
                  data = subarray buffer
                    (tag_offset buffer off + 4 + (if boxType = ''meta'' then 4 else 0))
                    (off + declared_size buffer off),
                  startOffset = off \<rparr>"
  proof (cases "be_nat (take 4 (drop off buffer)) = 1")
    case True
    with a2 have l: "off + 20 \<le> length buffer" by (simp add: tag_offset_def s4)
    from True a3 have t: "subarray buffer (off + 16) (off + 16 + 4) = boxType"
      by (simp add: tag_offset_def s4)
    from True l t show ?thesis
      by (simp add: findAndParseBox_body_def findAndParseBox_tag_def readUInt32BE_def
          readUInt64BE_def declared_size_def tag_offset_def s4 s8 Let_def)
  next
    case False
    from False a3 have t: "subarray buffer (off + 4) (off + 4 + 4) = boxType"
      by (simp add: tag_offset_def s4)
    from False a1 t show ?thesis
      by (simp add: findAndParseBox_body_def findAndParseBox_tag_def readUInt32BE_def
          declared_size_def tag_offset_def s4 Let_def)
  qed
  then show ?thesis using a1 by (subst findAndParseBox_from.simps) simp
qed

lemmas scan_eval = findAndParseBox_body_def findAndParseBox_tag_def readUInt32BE_def
  readUInt64BE_def declared_size_def tag_offset_def subarray_def be_nat_def u32be_def

subsection \<open>C5: the scan terminates\<close>

text \<open>
  C5 as stated fails for a box that carries the tag looked for: the loop compares the tag
  before it looks at the size, and it never compares the end of the box with the length of
  the buffer. A 12-byte file whose first box declares 255 bytes under the tag \<open>moov\<close> is
  answered with that box, its payload cut off at the end of the buffer, and a box that
  declares size zero under the tag \<open>moov\<close> is answered with that box and an empty payload:
  neither scan returns no match.
\<close>

definition overrun_file :: buffer where
  "overrun_file = u32be 255 @ ''moovabcd''"

definition zero_size_moov_file :: buffer where
  "zero_size_moov_file = u32be 0 @ ''moovabcd''"

theorem findAndParseBox_matching_box_counterexample:
  "length overrun_file = 12 \<and> declared_size overrun_file 0 = 255 \<and>
   findAndParseBox overrun_file ''moov''
     = Inr (Some \<lparr> size = 255, type = ''moov'', data = ''abcd'', startOffset = 0 \<rparr>) \<and>
   declared_size zero_size_moov_file 0 = 0 \<and>
   findAndParseBox zero_size_moov_file ''moov''
     = Inr (Some \<lparr> size = 0, type = ''moov'', data = [], startOffset = 0 \<rparr>)"
proof -
  have "findAndParseBox_body overrun_file ''moov'' 0
      = Return \<lparr> size = 255, type = ''moov'', data = ''abcd'', startOffset = 0 \<rparr>"
    by (simp add: overrun_file_def scan_eval)
  then have r1: "findAndParseBox overrun_file ''moov''
     = Inr (Some \<lparr> size = 255, type = ''moov'', data = ''abcd'', startOffset = 0 \<rparr>)"
    unfolding findAndParseBox_def
    by (subst findAndParseBox_from.simps) (simp add: overrun_file_def u32be_def)
  have "findAndParseBox_body zero_size_moov_file ''moov'' 0
      = Return \<lparr> size = 0, type = ''moov'', data = [], startOffset = 0 \<rparr>"
    by (simp add: zero_size_moov_file_def scan_eval)
  then have r2: "findAndParseBox zero_size_moov_file ''moov''
     = Inr (Some \<lparr> size = 0, type = ''moov'', data = [], startOffset = 0 \<rparr>)"
    unfolding findAndParseBox_def
    by (subst findAndParseBox_from.simps) (simp add: zero_size_moov_file_def u32be_def)
  have "length overrun_file = 12" by (simp add: overrun_file_def u32be_def)
  moreover have "declared_size overrun_file 0 = 255" by (simp add: overrun_file_def scan_eval)
  moreover have "declared_size zero_size_moov_file 0 = 0"
    by (simp add: zero_size_moov_file_def scan_eval)
  ultimately show ?thesis using r1 r2 by simp
qed

text \<open>
  C5, as the code has it. \<open>findAndParseBox_from\<close> is the loop of \<open>findAndParseBox\<close>,
  defined with a proved termination order, so the scan ends for every buffer, tag and
  start offset. It ends with a result and never with a thrown \<open>RangeError\<close>: no read
  leaves the buffer. When the scan comes to a box carrying another tag than the one
  looked for, whose declared size is zero or runs past the end of the buffer, it ends
  there with no match. When it comes to a box carrying the tag looked for, whose tag
  field lies inside the buffer, it ends there with that box as the match, whatever the
  declared size: the box returned has the declared size, and its payload is what the
  buffer holds between the end of the tag (four bytes further for \<open>meta\<close>) and the
  declared end, cut off at the end of the buffer.
\<close>

theorem findAndParseBox_scan_terminates:
  "(\<exists>r. findAndParseBox_from buffer boxType start = Inr r) \<and>
   (\<forall>off. scan_reaches buffer boxType start off \<and> off + 8 < length buffer \<and>
       subarray buffer (tag_offset buffer off) (tag_offset buffer off + 4) \<noteq> boxType \<and>
       (declared_size buffer off = 0 \<or> length buffer < off + declared_size buffer off)
       \<longrightarrow> findAndParseBox_from buffer boxType start = Inr None) \<and>
   (\<forall>off. scan_reaches buffer boxType start off \<and> off + 8 < length buffer \<and>
       tag_offset buffer off + 4 \<le> length buffer \<and>
       subarray buffer (tag_offset buffer off) (tag_offset buffer off + 4) = boxType
       \<longrightarrow> findAndParseBox_from buffer boxType start =
            Inr (Some \<lparr> size = declared_size buffer off, type = boxType,
                         data = subarray buffer
                           (tag_offset buffer off + 4 + (if boxType = ''meta'' then 4 else 0))
                           (off + declared_size buffer off),
                         startOffset = off \<rparr>))"
proof (intro conjI allI impI)
  show "\<exists>r. findAndParseBox_from buffer boxType start = Inr r"
    by (rule findAndParseBox_from_returns)
next
  fix off
  assume a: "scan_reaches buffer boxType start off \<and> off + 8 < length buffer \<and>
       subarray buffer (tag_offset buffer off) (tag_offset buffer off + 4) \<noteq> boxType \<and>
       (declared_size buffer off = 0 \<or> length buffer < off + declared_size buffer off)"
  then have "findAndParseBox_from buffer boxType off = Inr None"
    by (intro scan_stops) auto
  moreover have "findAndParseBox_from buffer boxType start = findAndParseBox_from buffer boxType off"
    using a by (intro scan_reaches_result) simp
  ultimately show "findAndParseBox_from buffer boxType start = Inr None"
    by simp
next
  fix off
  assume a: "scan_reaches buffer boxType start off \<and> off + 8 < length buffer \<and>
       tag_offset buffer off + 4 \<le> length buffer \<and>
       subarray buffer (tag_offset buffer off) (tag_offset buffer off + 4) = boxType"
  have "findAndParseBox_from buffer boxType start = findAndParseBox_from buffer boxType off"
    using a by (intro scan_reaches_result) simp
  moreover have "findAndParseBox_from buffer boxType off =
            Inr (Some \<lparr> size = declared_size buffer off, type = boxType,
                         data = subarray buffer
                           (tag_offset buffer off + 4 + (if boxType = ''meta'' then 4 else 0))
                           (off + declared_size buffer off),
                         startOffset = off \<rparr>)"
    using a by (intro scan_match) simp_all
  ultimately show "findAndParseBox_from buffer boxType start =
            Inr (Some \<lparr> size = declared_size buffer off, type = boxType,
                         data = subarray buffer
                           (tag_offset buffer off + 4 + (if boxType = ''meta'' then 4 else 0))
                           (off + declared_size buffer off),
                         startOffset = off \<rparr>)"
    by simp
qed


text \<open>Two instances. A 12-byte \<open>free\<close> box is stepped over, and the box after it declares
  size zero under the tag \<open>skip\<close>; the scan for \<open>moov\<close> ends there although a \<open>moov\<close>
  tag follows. And the scan of the 12-byte file above, whose first box carries the tag
  \<open>moov\<close> and declares 255 bytes, returns that box with the four bytes the buffer has
  left.\<close>

definition zero_size_file :: buffer where
  "zero_size_file = u32be 12 @ ''freeabcd'' @ u32be 0 @ ''skipmoovxxxx''"

theorem findAndParseBox_scan_terminates_witness:
  "scan_reaches zero_size_file ''moov'' 0 12 \<and> 12 + 8 < length zero_size_file \<and>
   subarray zero_size_file (tag_offset zero_size_file 12) (tag_offset zero_size_file 12 + 4)
     \<noteq> ''moov'' \<and>
   declared_size zero_size_file 12 = 0 \<and>
   findAndParseBox_from zero_size_file ''moov'' 0 = Inr None \<and>
   scan_reaches overrun_file ''moov'' 0 0 \<and> 0 + 8 < length overrun_file \<and>
   tag_offset overrun_file 0 + 4 \<le> length overrun_file \<and>
   subarray overrun_file (tag_offset overrun_file 0) (tag_offset overrun_file 0 + 4) = ''moov'' \<and>
   length overrun_file < 0 + declared_size overrun_file 0 \<and>
   findAndParseBox_from overrun_file ''moov'' 0 =
     Inr (Some \<lparr> size = 255, type = ''moov'', data = ''abcd'', startOffset = 0 \<rparr>)"
proof -
  have h1: "scan_reaches zero_size_file ''moov'' 0 12"
    by (rule reach_next [OF reach_start]) (simp_all add: zero_size_file_def scan_eval)
  have h2: "12 + 8 < length zero_size_file" by (simp add: zero_size_file_def u32be_def)
  have h3: "subarray zero_size_file (tag_offset zero_size_file 12)
              (tag_offset zero_size_file 12 + 4) \<noteq> ''moov''"
    by (simp add: zero_size_file_def scan_eval)
  have h4: "declared_size zero_size_file 12 = 0" by (simp add: zero_size_file_def scan_eval)
  from findAndParseBox_scan_terminates [of zero_size_file "''moov''" 0] h1 h2 h3 h4
  have r: "findAndParseBox_from zero_size_file ''moov'' 0 = Inr None" by blast
  have g1: "scan_reaches overrun_file ''moov'' 0 0" by (rule reach_start)
  have g2: "0 + 8 < length overrun_file" by (simp add: overrun_file_def u32be_def)
  have g3: "tag_offset overrun_file 0 + 4 \<le> length overrun_file"
    by (simp add: overrun_file_def scan_eval)
  have g4: "subarray overrun_file (tag_offset overrun_file 0) (tag_offset overrun_file 0 + 4)
              = ''moov''"
    by (simp add: overrun_file_def scan_eval)
  have g5: "length overrun_file < 0 + declared_size overrun_file 0"
    by (simp add: overrun_file_def scan_eval)
  have d: "declared_size overrun_file 0 = 255" by (simp add: overrun_file_def scan_eval)
  have p: "subarray overrun_file (tag_offset overrun_file 0 + 4) (0 + 255) = ''abcd''"
    by (simp add: overrun_file_def scan_eval)
  from findAndParseBox_scan_terminates [of overrun_file "''moov''" 0] g1 g2 g3 g4
  have "findAndParseBox_from overrun_file ''moov'' 0 =
     Inr (Some \<lparr> size = declared_size overrun_file 0, type = ''moov'',
                  data = subarray overrun_file
                    (tag_offset overrun_file 0 + 4 + (if ''moov'' = ''meta'' then 4 else 0))
                    (0 + declared_size overrun_file 0),
                  startOffset = 0 \<rparr>)"
    by blast
  then have s: "findAndParseBox_from overrun_file ''moov'' 0 =
     Inr (Some \<lparr> size = 255, type = ''moov'', data = ''abcd'', startOffset = 0 \<rparr>)"
    using p by (simp add: d)
  from h1 h2 h3 h4 r g1 g2 g3 g4 g5 s show ?thesis by blast
qed

subsection \<open>C4: boxes with an extended size\<close>

text \<open>
  C4, as the code has it. When the 32-bit size field of the box at \<open>offset\<close> holds
  exactly 1, the scanner skips the four bytes after that field, reads the 64-bit size from
  bytes 8 to 15 of the box, takes a header of 16 bytes and reads the 4-byte tag after it
  (bytes 16 to 19). When that tag is the one looked for, the box returned has that 64-bit
  size, starts at \<open>offset\<close>, and its payload runs from after the tag (four bytes further
  for \<open>meta\<close>) up to \<open>size\<close> bytes from the box start, clamped to the buffer.
\<close>

theorem findAndParseBox_extended_size:
  assumes "offset + 8 < length buffer"
    and "be_nat (subarray buffer offset (offset + 4)) = 1"
    and "offset + 20 \<le> length buffer"
    and "subarray buffer (offset + 16) (offset + 20) = boxType"
  shows "findAndParseBox_from buffer boxType offset =
     Inr (Some \<lparr> size = Number_of_bigint (be_nat (subarray buffer (offset + 8) (offset + 16))),
                 type = boxType,
                 data = subarray buffer (offset + 20 + (if boxType = ''meta'' then 4 else 0))
                          (offset + Number_of_bigint
                             (be_nat (subarray buffer (offset + 8) (offset + 16)))),
                 startOffset = offset \<rparr>)"
proof -
  have "findAndParseBox_body buffer boxType offset =
     Return \<lparr> size = Number_of_bigint (be_nat (subarray buffer (offset + 8) (offset + 16))),
              type = boxType,
              data = subarray buffer (offset + 20 + (if boxType = ''meta'' then 4 else 0))
                       (offset + Number_of_bigint
                          (be_nat (subarray buffer (offset + 8) (offset + 16)))),
              startOffset = offset \<rparr>"
    using assms
    by (simp add: findAndParseBox_body_def findAndParseBox_tag_def readUInt32BE_def
          readUInt64BE_def subarray_def Let_def add.commute)
  then show ?thesis
    using assms(1) by (subst findAndParseBox_from.simps) simp
qed

text \<open>A file that opens with an extended-size \<open>moov\<close> box of 24 bytes: the marker 1,
  four bytes that are skipped, the 64-bit size 24, the tag, and four bytes of payload.\<close>

definition extended_file :: buffer where
  "extended_file = u32be 1 @ u32be 0 @ u32be 0 @ u32be 24 @ ''moovabcd''"

theorem findAndParseBox_extended_size_witness:
  "0 + 8 < length extended_file \<and> be_nat (subarray extended_file 0 (0 + 4)) = 1 \<and>
   0 + 20 \<le> length extended_file \<and> subarray extended_file (0 + 16) (0 + 20) = ''moov'' \<and>
   findAndParseBox_from extended_file ''moov'' 0 =
     Inr (Some \<lparr> size = 24, type = ''moov'', data = ''abcd'', startOffset = 0 \<rparr>)"
proof -
  have h1: "0 + 8 < length extended_file" by (simp add: extended_file_def u32be_def)
  have h2: "be_nat (subarray extended_file 0 (0 + 4)) = 1"
    by (simp add: extended_file_def subarray_def be_nat_def u32be_def)
  have h3: "0 + 20 \<le> length extended_file" by (simp add: extended_file_def u32be_def)
  have h4: "subarray extended_file (0 + 16) (0 + 20) = ''moov''"
    by (simp add: extended_file_def subarray_def u32be_def)
  have v: "be_nat (subarray extended_file (0 + 8) (0 + 16)) = 24"
    by (simp add: extended_file_def subarray_def be_nat_def u32be_def)
  have d: "subarray extended_file 20 24 = ''abcd''"
    by (simp add: extended_file_def subarray_def u32be_def)
  from findAndParseBox_extended_size [OF h1 h2 h3 h4] v d
  have "findAndParseBox_from extended_file ''moov'' 0 =
     Inr (Some \<lparr> size = 24, type = ''moov'', data = ''abcd'', startOffset = 0 \<rparr>)"
    by (simp add: Number_of_bigint_def)
  with h1 h2 h3 h4 show ?thesis by blast
qed

text \<open>
  The same file refutes the reading in which the 64-bit size is taken from the eight
  bytes that follow the 32-bit field (bytes 4 to 11 of the box): those hold 0 here, and
  the box found has size 24.
\<close>

theorem findAndParseBox_next_eight_bytes_counterexample:
  "findAndParseBox extended_file ''moov'' =
     Inr (Some \<lparr> size = 24, type = ''moov'', data = ''abcd'', startOffset = 0 \<rparr>) \<and>
   be_nat (subarray extended_file 4 12) = 0 \<and>
   be_nat (subarray extended_file 8 16) = 24"
proof -
  have "findAndParseBox_body extended_file ''moov'' 0 =
     Return \<lparr> size = 24, type = ''moov'', data = ''abcd'', startOffset = 0 \<rparr>"
    by (simp add: extended_file_def scan_eval Number_of_bigint_def)
  then have "findAndParseBox extended_file ''moov'' =
     Inr (Some \<lparr> size = 24, type = ''moov'', data = ''abcd'', startOffset = 0 \<rparr>)"
    unfolding findAndParseBox_def
    by (subst findAndParseBox_from.simps) (simp add: extended_file_def u32be_def)
  moreover have "be_nat (subarray extended_file 4 12) = 0"
    by (simp add: extended_file_def subarray_def be_nat_def u32be_def)
  moreover have "be_nat (subarray extended_file 8 16) = 24"
    by (simp add: extended_file_def subarray_def be_nat_def u32be_def)
  ultimately show ?thesis by blast
qed


section \<open>Text of the platform: strings, UTF-8 and base64\<close>

text \<open>
  A JavaScript string is a sequence of 16-bit code units. \<open>js\<close> turns an ASCII literal
  of the source into such a string.
\<close>

type_synonym jsstring = "16 word list"

definition js :: "string \<Rightarrow> jsstring" where
  "js s = map of_char s"

definition is_high :: "16 word \<Rightarrow> bool" where
  "is_high u \<longleftrightarrow> 0xD800 \<le> unat u \<and> unat u < 0xDC00"

definition is_low :: "16 word \<Rightarrow> bool" where
  "is_low u \<longleftrightarrow> 0xDC00 \<le> unat u \<and> unat u < 0xE000"

subsection \<open>\<open>Buffer.from(text, 'utf-8')\<close>\<close>

definition replacement_bytes :: buffer where
  "replacement_bytes = [CHR 0xEF, CHR 0xBF, CHR 0xBD]"

definition utf8_unit :: "16 word \<Rightarrow> buffer" where
  "utf8_unit u =
     (let n = unat u in
      if n < 0x80 then [char_of n]
      else if n < 0x800 then [char_of (0xC0 + n div 64), char_of (0x80 + n mod 64)]
      else if is_high u \<or> is_low u then replacement_bytes
      else [char_of (0xE0 + n div 4096), char_of (0x80 + n div 64 mod 64),
            char_of (0x80 + n mod 64)])"

definition utf8_pair :: "16 word \<Rightarrow> 16 word \<Rightarrow> buffer" where
  "utf8_pair u v =
     (let cp = 0x10000 + (unat u - 0xD800) * 1024 + (unat v - 0xDC00) in
      [char_of (0xF0 + cp div 262144), char_of (0x80 + cp div 4096 mod 64),
       char_of (0x80 + cp div 64 mod 64), char_of (0x80 + cp mod 64)])"

text \<open>A surrogate pair is one code point of four bytes; a surrogate alone is written as
  U+FFFD.\<close>

fun utf8_encode :: "jsstring \<Rightarrow> buffer" where
  "utf8_encode [] = []"
| "utf8_encode [u] = utf8_unit u"
| "utf8_encode (u # v # vs) =
     (if is_high u \<and> is_low v then utf8_pair u v @ utf8_encode vs
      else utf8_unit u @ utf8_encode (v # vs))"

subsection \<open>\<open>buf.toString('utf-8')\<close>\<close>

text \<open>
  The decoder gives U+FFFD for every maximal ill-formed run and goes on at the byte that
  broke the sequence. Overlong forms, encoded surrogates and code points above U+10FFFF
  are ill-formed: the second byte of a sequence has the bounds below.
\<close>

definition replacement :: "16 word" where
  "replacement = 0xFFFD"

definition is_cont :: "char \<Rightarrow> bool" where
  "is_cont c \<longleftrightarrow> (0x80::nat) \<le> of_char c \<and> (of_char c :: nat) < 0xC0"

definition second_ok :: "nat \<Rightarrow> char \<Rightarrow> bool" where
  "second_ok lead c \<longleftrightarrow>
     (if lead = 0xE0 then 0xA0 else if lead = 0xF0 then 0x90 else 0x80) \<le> (of_char c :: nat) \<and>
     (of_char c :: nat) \<le> (if lead = 0xED then 0x9F else if lead = 0xF4 then 0x8F else 0xBF)"

definition cont_bits :: "char \<Rightarrow> nat" where
  "cont_bits c = of_char c - 0x80"

definition surrogates_of :: "nat \<Rightarrow> jsstring" where
  "surrogates_of cp = [of_nat (0xD800 + (cp - 0x10000) div 1024),
                       of_nat (0xDC00 + (cp - 0x10000) mod 1024)]"

fun utf8_decode :: "buffer \<Rightarrow> jsstring" where
  "utf8_decode [] = []"
| "utf8_decode (b # bs) =
     (let n = (of_char b :: nat) in
      if n < 0x80 then of_nat n # utf8_decode bs
      else if 0xC2 \<le> n \<and> n < 0xE0 then
        (case bs of
           [] \<Rightarrow> [replacement]
         | c # cs \<Rightarrow>
             if is_cont c then of_nat ((n - 0xC0) * 64 + cont_bits c) # utf8_decode cs
             else replacement # utf8_decode bs)
      else if 0xE0 \<le> n \<and> n < 0xF0 then
        (case bs of
           [] \<Rightarrow> [replacement]
         | c # cs \<Rightarrow>
             if second_ok n c then
               (case cs of
                  [] \<Rightarrow> [replacement]
                | d # ds \<Rightarrow>
                    if is_cont d
                    then of_nat (((n - 0xE0) * 64 + cont_bits c) * 64 + cont_bits d)
                         # utf8_decode ds
                    else replacement # utf8_decode cs)
             else replacement # utf8_decode bs)
      else if 0xF0 \<le> n \<and> n < 0xF5 then
        (case bs of
           [] \<Rightarrow> [replacement]
         | c # cs \<Rightarrow>
             if second_ok n c then
               (case cs of
                  [] \<Rightarrow> [replacement]
                | d # ds \<Rightarrow>
                    if is_cont d then
                      (case ds of
                         [] \<Rightarrow> [replacement]
                       | e # es \<Rightarrow>
                           if is_cont e
                           then surrogates_of
                                  ((((n - 0xF0) * 64 + cont_bits c) * 64 + cont_bits d) * 64
                                   + cont_bits e) @ utf8_decode es
                           else replacement # utf8_decode ds)
                    else replacement # utf8_decode cs)
             else replacement # utf8_decode bs)
      else replacement # utf8_decode bs)"

declare utf8_encode.simps [simp del] utf8_decode.simps [simp del]

subsection \<open>\<open>buf.toString('base64')\<close> and \<open>Buffer.from(text, 'base64')\<close>\<close>

definition b64_char :: "nat \<Rightarrow> char" where
  "b64_char n =
     (if n < 26 then char_of (65 + n)
      else if n < 52 then char_of (71 + n)
      else if n < 62 then char_of (n - 4)
      else if n = 62 then CHR ''+'' else CHR ''/'')"

fun base64_chars :: "buffer \<Rightarrow> string" where
  "base64_chars [] = []"
| "base64_chars [a] =
     (let x = (of_char a :: nat) in
      [b64_char (x div 4), b64_char (x mod 4 * 16), CHR ''='', CHR ''=''])"
| "base64_chars [a, b] =
     (let x = (of_char a :: nat); y = (of_char b :: nat) in
      [b64_char (x div 4), b64_char (x mod 4 * 16 + y div 16), b64_char (y mod 16 * 4),
       CHR ''=''])"
| "base64_chars (a # b # c # rest) =
     (let x = (of_char a :: nat); y = (of_char b :: nat); z = (of_char c :: nat) in
      b64_char (x div 4) # b64_char (x mod 4 * 16 + y div 16) #
      b64_char (y mod 16 * 4 + z div 64) # b64_char (z mod 64) # base64_chars rest)"

definition base64_encode :: "buffer \<Rightarrow> jsstring" where
  "base64_encode b = js (base64_chars b)"

text \<open>
  The decoder is exact on what \<open>base64_encode\<close> writes. On other text it follows the
  rule of Node's decoder, which reads of every code unit its low byte only: a character
  outside the two alphabets (\<open>+/\<close> and \<open>-_\<close>) is skipped and \<open>=\<close> ends the data.
\<close>

definition low_byte :: "16 word \<Rightarrow> nat" where
  "low_byte u = unat u mod 256"

definition unbase64 :: "16 word \<Rightarrow> nat option" where
  "unbase64 u =
     (let n = low_byte u in
      if 65 \<le> n \<and> n < 91 then Some (n - 65)
      else if 97 \<le> n \<and> n < 123 then Some (n - 71)
      else if 48 \<le> n \<and> n < 58 then Some (n + 4)
      else if n = 43 \<or> n = 45 then Some 62
      else if n = 47 \<or> n = 95 then Some 63
      else None)"

fun base64_sextets :: "jsstring \<Rightarrow> nat list" where
  "base64_sextets [] = []"
| "base64_sextets (u # us) =
     (if low_byte u = 61 then []
      else case unbase64 u of None \<Rightarrow> base64_sextets us | Some v \<Rightarrow> v # base64_sextets us)"

fun base64_bytes :: "nat list \<Rightarrow> buffer" where
  "base64_bytes (a # b # c # d # rest) =
     char_of (a * 4 + b div 16) # char_of (b mod 16 * 16 + c div 4) #
     char_of (c mod 4 * 64 + d) # base64_bytes rest"
| "base64_bytes [a, b, c] = [char_of (a * 4 + b div 16), char_of (b mod 16 * 16 + c div 4)]"
| "base64_bytes [a, b] = [char_of (a * 4 + b div 16)]"
| "base64_bytes _ = []"

definition base64_decode :: "jsstring \<Rightarrow> buffer" where
  "base64_decode t = base64_bytes (base64_sextets t)"


section \<open>JSON values of the platform\<close>

text \<open>
  What \<open>JSON.parse\<close> returns. A number is kept as the text of its literal: its value
  as a double is not modelled, and no field of a manifest is a number. \<open>JSON.stringify\<close>
  and \<open>ToString\<close> print a number as the shortest decimal that reads back as the same
  double (and a literal beyond the range of the doubles as \<open>null\<close> or \<open>Infinity\<close>);
  below they give back the literal, which is that text only for a literal already in that
  form, such as \<open>0\<close>, \<open>17\<close> or \<open>-2.5\<close>. No statement below is about the text of a
  number. The members of an object have distinct keys.
\<close>

datatype json =
    JNull
  | JBool bool
  | JNum jsstring
  | JStr jsstring
  | JArr "json list"
  | JObj "(jsstring \<times> json) list"

subsection \<open>\<open>JSON.stringify\<close>\<close>

definition hex_digit :: "nat \<Rightarrow> 16 word" where
  "hex_digit n = (if n < 10 then of_nat (48 + n) else of_nat (87 + n))"

definition unicode_escape :: "16 word \<Rightarrow> jsstring" where
  "unicode_escape u =
     (let n = unat u in
      [0x5C, 0x75, hex_digit (n div 4096), hex_digit (n div 256 mod 16),
       hex_digit (n div 16 mod 16), hex_digit (n mod 16)])"

text \<open>\<open>QuoteJSONString\<close>: the short escapes, \<open>\uXXXX\<close> for the other control characters
  and for a surrogate that stands alone, everything else as it is.\<close>

definition quote_unit :: "16 word \<Rightarrow> jsstring" where
  "quote_unit u =
     (if u = 0x08 then [0x5C, 0x62]
      else if u = 0x09 then [0x5C, 0x74]
      else if u = 0x0A then [0x5C, 0x6E]
      else if u = 0x0C then [0x5C, 0x66]
      else if u = 0x0D then [0x5C, 0x72]
      else if u = 0x22 then [0x5C, 0x22]
      else if u = 0x5C then [0x5C, 0x5C]
      else if unat u < 0x20 \<or> is_high u \<or> is_low u then unicode_escape u
      else [u])"

fun quote_units :: "jsstring \<Rightarrow> jsstring" where
  "quote_units [] = []"
| "quote_units [u] = quote_unit u"
| "quote_units (u # v # vs) =
     (if is_high u \<and> is_low v then u # v # quote_units vs
      else quote_unit u @ quote_units (v # vs))"

definition QuoteJSONString :: "jsstring \<Rightarrow> jsstring" where
  "QuoteJSONString t = 0x22 # quote_units t @ [0x22]"

fun join_comma :: "jsstring list \<Rightarrow> jsstring" where
  "join_comma [] = []"
| "join_comma [t] = t"
| "join_comma (t # ts) = t @ 0x2C # join_comma ts"

fun JSON_stringify :: "json \<Rightarrow> jsstring"
  and stringify_elements :: "json list \<Rightarrow> jsstring list"
  and stringify_members :: "(jsstring \<times> json) list \<Rightarrow> jsstring list" where
  "JSON_stringify JNull = js ''null''"
| "JSON_stringify (JBool b) = (if b then js ''true'' else js ''false'')"
| "JSON_stringify (JNum t) = t"
| "JSON_stringify (JStr t) = QuoteJSONString t"
| "JSON_stringify (JArr xs) = 0x5B # join_comma (stringify_elements xs) @ [0x5D]"
| "JSON_stringify (JObj ms) = 0x7B # join_comma (stringify_members ms) @ [0x7D]"
| "stringify_elements [] = []"
| "stringify_elements (x # xs) = JSON_stringify x # stringify_elements xs"
| "stringify_members [] = []"
| "stringify_members ((k, v) # ms) =
     (QuoteJSONString k @ 0x3A # JSON_stringify v) # stringify_members ms"

subsection \<open>\<open>JSON.parse\<close>\<close>

definition is_ws :: "16 word \<Rightarrow> bool" where
  "is_ws u \<longleftrightarrow> u = 0x20 \<or> u = 0x09 \<or> u = 0x0A \<or> u = 0x0D"

definition skip_ws :: "jsstring \<Rightarrow> jsstring" where
  "skip_ws t = dropWhile is_ws t"

definition hex_value :: "16 word \<Rightarrow> nat option" where
  "hex_value u =
     (let n = unat u in
      if 48 \<le> n \<and> n < 58 then Some (n - 48)
      else if 97 \<le> n \<and> n < 103 then Some (n - 87)
      else if 65 \<le> n \<and> n < 71 then Some (n - 55)
      else None)"

definition simple_escape :: "16 word \<Rightarrow> 16 word option" where
  "simple_escape e =
     (if e = 0x22 then Some 0x22
      else if e = 0x5C then Some 0x5C
      else if e = 0x2F then Some 0x2F
      else if e = 0x62 then Some 0x08
      else if e = 0x66 then Some 0x0C
      else if e = 0x6E then Some 0x0A
      else if e = 0x72 then Some 0x0D
      else if e = 0x74 then Some 0x09
      else None)"

definition cons_unit :: "16 word \<Rightarrow> (jsstring \<times> jsstring) option \<Rightarrow> (jsstring \<times> jsstring) option" where
  "cons_unit u r = map_option (\<lambda>(t, rest). (u # t, rest)) r"

text \<open>The characters of a string literal, read after its opening quote: the text of the
  string and what follows the closing quote.\<close>

fun parse_string_body :: "jsstring \<Rightarrow> (jsstring \<times> jsstring) option" where
  "parse_string_body [] = None"
| "parse_string_body (u # us) =
     (if u = 0x22 then Some ([], us)
      else if u = 0x5C then
        (case us of
           [] \<Rightarrow> None
         | e # r \<Rightarrow>
             if e = 0x75 then
               (case r of
                  a # b # c # d # r' \<Rightarrow>
                    (case (hex_value a, hex_value b, hex_value c, hex_value d) of
                       (Some x3, Some x2, Some x1, Some x0) \<Rightarrow>
                         cons_unit (of_nat (((x3 * 16 + x2) * 16 + x1) * 16 + x0))
                           (parse_string_body r')
                     | _ \<Rightarrow> None)
                | _ \<Rightarrow> None)
             else (case simple_escape e of
                     None \<Rightarrow> None
                   | Some x \<Rightarrow> cons_unit x (parse_string_body r)))
      else if unat u < 0x20 then None
      else cons_unit u (parse_string_body us))"

declare parse_string_body.simps [simp del]

definition is_digit :: "16 word \<Rightarrow> bool" where
  "is_digit u \<longleftrightarrow> 48 \<le> unat u \<and> unat u < 58"

text \<open>A number literal: \<open>-? (0 | [1-9][0-9]*) (. [0-9]+)? ([eE] [+-]? [0-9]+)?\<close>. Each part
  returns the text it consumed and the rest.\<close>

definition number_int :: "jsstring \<Rightarrow> (jsstring \<times> jsstring) option" where
  "number_int t =
     (case t of
        [] \<Rightarrow> None
      | u # us \<Rightarrow>
          if u = 0x30 then Some ([u], us)
          else if is_digit u then Some (u # takeWhile is_digit us, dropWhile is_digit us)
          else None)"

definition number_frac :: "jsstring \<Rightarrow> (jsstring \<times> jsstring) option" where
  "number_frac t =
     (case t of
        u # us \<Rightarrow>
          if u = 0x2E then
            (if takeWhile is_digit us = [] then None
             else Some (u # takeWhile is_digit us, dropWhile is_digit us))
          else Some ([], t)
      | [] \<Rightarrow> Some ([], t))"

definition number_exp :: "jsstring \<Rightarrow> (jsstring \<times> jsstring) option" where
  "number_exp t =
     (case t of
        u # us \<Rightarrow>
          if u = 0x65 \<or> u = 0x45 then
            (let sign = (case us of s # _ \<Rightarrow> if s = 0x2B \<or> s = 0x2D then [s] else [] | [] \<Rightarrow> []);
                 ds = drop (length sign) us
             in if takeWhile is_digit ds = [] then None
                else Some (u # sign @ takeWhile is_digit ds, dropWhile is_digit ds))
          else Some ([], t)
      | [] \<Rightarrow> Some ([], t))"

definition parse_number :: "jsstring \<Rightarrow> (jsstring \<times> jsstring) option" where
  "parse_number t =
     (let sign = (case t of u # _ \<Rightarrow> if u = 0x2D then [u] else [] | [] \<Rightarrow> [])
      in case number_int (drop (length sign) t) of
           None \<Rightarrow> None
         | Some (i, r1) \<Rightarrow>
             (case number_frac r1 of
                None \<Rightarrow> None
              | Some (f, r2) \<Rightarrow>
                  (case number_exp r2 of
                     None \<Rightarrow> None
                   | Some (e, r3) \<Rightarrow> Some (sign @ i @ f @ e, r3))))"

text \<open>A key that comes again replaces the value of the member it names.\<close>

definition obj_put :: "(jsstring \<times> json) list \<Rightarrow> jsstring \<Rightarrow> json \<Rightarrow> (jsstring \<times> json) list" where
  "obj_put ms k v =
     (if k \<in> fst ` set ms then map (\<lambda>m. if fst m = k then (k, v) else m) ms
      else ms @ [(k, v)])"

text \<open>
  The recursive descent. Each call takes one unit of fuel; \<open>JSON_parse\<close> below gives two
  units for every code unit of the text and two more, and no chain of calls is longer:
  of two calls that follow each other one has read a code unit.
\<close>

fun parse_value :: "nat \<Rightarrow> jsstring \<Rightarrow> (json \<times> jsstring) option"
  and parse_elements :: "nat \<Rightarrow> json list \<Rightarrow> jsstring \<Rightarrow> (json \<times> jsstring) option"
  and parse_members :: "nat \<Rightarrow> (jsstring \<times> json) list \<Rightarrow> jsstring \<Rightarrow> (json \<times> jsstring) option"
  where
  "parse_value 0 t = None"
| "parse_value (Suc fuel) t =
     (case skip_ws t of
        [] \<Rightarrow> None
      | u # us \<Rightarrow>
          if u = 0x22 then map_option (\<lambda>(x, r). (JStr x, r)) (parse_string_body us)
          else if u = 0x5B then
            (case skip_ws us of
               [] \<Rightarrow> None
             | c # r \<Rightarrow> if c = 0x5D then Some (JArr [], r) else parse_elements fuel [] us)
          else if u = 0x7B then
            (case skip_ws us of
               [] \<Rightarrow> None
             | c # r \<Rightarrow> if c = 0x7D then Some (JObj [], r) else parse_members fuel [] us)
          else if take 4 (u # us) = js ''true'' then Some (JBool True, drop 3 us)
          else if take 5 (u # us) = js ''false'' then Some (JBool False, drop 4 us)
          else if take 4 (u # us) = js ''null'' then Some (JNull, drop 3 us)
          else if u = 0x2D \<or> is_digit u then
            map_option (\<lambda>(x, r). (JNum x, r)) (parse_number (u # us))
          else None)"
| "parse_elements 0 acc t = None"
| "parse_elements (Suc fuel) acc t =
     (case parse_value fuel t of
        None \<Rightarrow> None
      | Some (v, r) \<Rightarrow>
          (case skip_ws r of
             [] \<Rightarrow> None
           | c # r' \<Rightarrow>
               if c = 0x2C then parse_elements fuel (acc @ [v]) r'
               else if c = 0x5D then Some (JArr (acc @ [v]), r')
               else None))"
| "parse_members 0 acc t = None"
| "parse_members (Suc fuel) acc t =
     (case skip_ws t of
        [] \<Rightarrow> None
      | q # r \<Rightarrow>
          if q = 0x22 then
            (case parse_string_body r of
               None \<Rightarrow> None
             | Some (k, r1) \<Rightarrow>
                 (case skip_ws r1 of
                    [] \<Rightarrow> None
                  | c # r2 \<Rightarrow>
                      if c = 0x3A then
                        (case parse_value fuel r2 of
                           None \<Rightarrow> None
                         | Some (v, r3) \<Rightarrow>
                             (case skip_ws r3 of
                                [] \<Rightarrow> None
                              | c' # r4 \<Rightarrow>
                                  if c' = 0x2C then parse_members fuel (obj_put acc k v) r4
                                  else if c' = 0x7D then Some (JObj (obj_put acc k v), r4)
                                  else None))
                      else None))
          else None)"

definition JSON_parse :: "jsstring \<Rightarrow> error + json" where
  "JSON_parse t =
     (case parse_value (2 * length t + 2) t of
        None \<Rightarrow> Inl SyntaxError
      | Some (v, r) \<Rightarrow> if skip_ws r = [] then Inr v else Inl SyntaxError)"


text \<open>Unfolding one call when the fuel is a numeral.\<close>

lemmas parse_fuel_numeral =
  parse_value.simps(2) [of "pred_numeral k", folded numeral_eq_Suc]
  parse_elements.simps(2) [of "pred_numeral k", folded numeral_eq_Suc]
  parse_members.simps(2) [of "pred_numeral k", folded numeral_eq_Suc]
  for k

subsection \<open>Reading a property\<close>

text \<open>
  \<open>value.key\<close> for the keys this program reads (\<open>manifest\<close>, \<open>signature\<close>,
  \<open>provider\<close>, \<open>public_key\<close>, \<open>output\<close>, \<open>hash\<close>), none of which names a property of
  a built-in prototype: an object gives its member or \<open>undefined\<close> (\<open>None\<close>), \<open>null\<close>
  throws a \<open>TypeError\<close>, every other value gives \<open>undefined\<close>.
\<close>

definition get_prop :: "json \<Rightarrow> string \<Rightarrow> error + json option" where
  "get_prop v key =
     (case v of
        JNull \<Rightarrow> Inl TypeError
      | JObj ms \<Rightarrow> Inr (map_of ms (js key))
      | _ \<Rightarrow> Inr None)"

definition get_prop_of :: "json option \<Rightarrow> string \<Rightarrow> error + json option" where
  "get_prop_of v key = (case v of None \<Rightarrow> Inl TypeError | Some x \<Rightarrow> get_prop x key)"

section \<open>\<open>metadata-embed.ts\<close>: the MP4 path\<close>

definition TRACE_UUID :: buffer where
  "TRACE_UUID = ''TRACE-Prov-2024-''"

record EmbeddedMetadata =
  manifest :: "json option"
  signature :: "json option"

record UUIDBox =
  uuid :: buffer
  data :: buffer

subsection \<open>\<open>extractUUIDBoxes\<close>\<close>

text \<open>One pass through the loop body entered at \<open>offset0\<close>: it breaks, throws, or goes
  on at a new offset, having pushed a box or not; the flag is the \<open>size === 0\<close> test
  that ends the body.\<close>

datatype uuid_step = UBreak | UThrow error | UNext "UUIDBox option" nat bool

definition extractUUIDBoxes_header :: "buffer \<Rightarrow> nat \<Rightarrow> nat \<Rightarrow> error + nat \<times> nat" where
  "extractUUIDBoxes_header metaData offset0 size0 =
     (if size0 = 1 then
        (case readUInt64BE metaData (offset0 + 8) of
           Inl e \<Rightarrow> Inl e
         | Inr big \<Rightarrow> Inr (Number_of_bigint big, offset0 + 16))
      else Inr (size0, offset0 + 4))"

definition extractUUIDBoxes_body :: "buffer \<Rightarrow> nat \<Rightarrow> uuid_step" where
  "extractUUIDBoxes_body metaData offset0 =
     (case readUInt32BE metaData offset0 of
        Inl e \<Rightarrow> UThrow e
      | Inr size0 \<Rightarrow>
          if size0 = 0 \<or> size0 > length metaData - offset0 then UBreak
          else
            (case extractUUIDBoxes_header metaData offset0 size0 of
               Inl e \<Rightarrow> UThrow e
             | Inr (sz, offset) \<Rightarrow>
                 if offset + 4 > length metaData then UBreak
                 else
                   let next = offset - (if sz = 1 then 16 else 4) + sz in
                   if subarray metaData offset (offset + 4) = ''uuid'' then
                     (if offset + 24 > length metaData then UBreak
                      else UNext (Some \<lparr> uuid = subarray metaData (offset + 8) (offset + 24),
                                         data = subarray metaData (offset + 24) next \<rparr>)
                             next (sz = 0))
                   else UNext None next (sz = 0)))"

lemma extractUUIDBoxes_body_UNext:
  "extractUUIDBoxes_body metaData offset0 = UNext b off' stop \<Longrightarrow> offset0 < off'"
  by (auto simp: extractUUIDBoxes_body_def extractUUIDBoxes_header_def Let_def
           split: sum.splits if_splits)

function extractUUIDBoxes_from :: "buffer \<Rightarrow> nat \<Rightarrow> UUIDBox list \<Rightarrow> error + UUIDBox list" where
  "extractUUIDBoxes_from metaData offset boxes =
     (if offset + 8 < length metaData then
        (case extractUUIDBoxes_body metaData offset of
           UBreak \<Rightarrow> Inr boxes
         | UThrow e \<Rightarrow> Inl e
         | UNext b off' stop \<Rightarrow>
             let boxes' = (case b of None \<Rightarrow> boxes | Some x \<Rightarrow> boxes @ [x]) in
             if stop then Inr boxes' else extractUUIDBoxes_from metaData off' boxes')
      else Inr boxes)"
  by pat_completeness auto
termination
  by (relation "measure (\<lambda>(metaData, offset, boxes). length metaData - offset)")
     (auto dest: extractUUIDBoxes_body_UNext)

declare extractUUIDBoxes_from.simps [simp del]

definition extractUUIDBoxes :: "buffer \<Rightarrow> error + UUIDBox list" where
  "extractUUIDBoxes metaData = extractUUIDBoxes_from metaData 0 []"

subsection \<open>Building boxes\<close>

definition then_do :: "error + 'a \<Rightarrow> ('a \<Rightarrow> error + 'b) \<Rightarrow> error + 'b" where
  "then_do r f = (case r of Inl e \<Rightarrow> Inl e | Inr x \<Rightarrow> f x)"

lemma then_do_simps [simp]:
  "then_do (Inl e) f = Inl e"
  "then_do (Inr x) f = f x"
  by (simp_all add: then_do_def)

text \<open>\<open>createUUIDBox\<close> for a 16-byte \<open>uuid\<close>, which is what both callers pass: the
  constant \<open>TRACE_UUID\<close>, or a slice of 16 bytes cut by \<open>extractUUIDBoxes\<close>.\<close>

definition createUUIDBox :: "buffer \<Rightarrow> buffer \<Rightarrow> error + buffer" where
  "createUUIDBox uuid_bytes data_bytes =
     (let boxSize = 4 + 4 + 16 + length data_bytes in
      then_do (writeUInt32BE boxSize) (\<lambda>sz. Inr (sz @ ''uuid'' @ uuid_bytes @ data_bytes)))"

fun createUUIDBoxes :: "UUIDBox list \<Rightarrow> error + buffer list" where
  "createUUIDBoxes [] = Inr []"
| "createUUIDBoxes (b # bs) =
     then_do (createUUIDBox (uuid b) (UUIDBox.data b))
       (\<lambda>x. then_do (createUUIDBoxes bs) (\<lambda>xs. Inr (x # xs)))"

definition createMetaBox :: "UUIDBox list \<Rightarrow> error + buffer" where
  "createMetaBox uuidBoxes =
     then_do (createUUIDBoxes uuidBoxes) (\<lambda>uuidBoxBuffers.
       let metaData = concat uuidBoxBuffers;
           boxSize = 4 + 4 + 4 + length metaData
       in then_do (writeUInt32BE boxSize) (\<lambda>sz. Inr (sz @ ''meta'' @ u32be 0 @ metaData)))"

definition createBox :: "string \<Rightarrow> buffer \<Rightarrow> error + buffer" where
  "createBox box_type data_bytes =
     (let boxSize = 4 + 4 + length data_bytes in
      then_do (writeUInt32BE boxSize) (\<lambda>sz. Inr (sz @ box_type @ data_bytes)))"

definition removeBoxFromBuffer :: "buffer \<Rightarrow> string \<Rightarrow> error + buffer" where
  "removeBoxFromBuffer buffer boxType =
     then_do (findAndParseBox buffer boxType) (\<lambda>box.
       case box of
         None \<Rightarrow> Inr buffer
       | Some b \<Rightarrow>
           Inr (subarray buffer 0 (startOffset b) @ subarray_from buffer (startOffset b + size b)))"

definition insertBox :: "buffer \<Rightarrow> buffer \<Rightarrow> buffer" where
  "insertBox buffer box = buffer @ box"

definition replaceBoxInFile :: "buffer \<Rightarrow> string \<Rightarrow> buffer \<Rightarrow> error + buffer" where
  "replaceBoxInFile fileBuffer boxType newBox =
     then_do (findAndParseBox fileBuffer boxType) (\<lambda>box.
       case box of
         None \<Rightarrow> Inr fileBuffer
       | Some b \<Rightarrow>
           Inr (subarray fileBuffer 0 (startOffset b) @ newBox
                @ subarray_from fileBuffer (startOffset b + size b)))"

subsection \<open>The file system\<close>

text \<open>The files by path. \<open>readFileSync\<close> throws on a path that does not exist.\<close>

type_synonym files = "jsstring \<Rightarrow> buffer option"

definition existsSync :: "files \<Rightarrow> jsstring \<Rightarrow> bool" where
  "existsSync fs p \<longleftrightarrow> fs p \<noteq> None"

definition readFileSync :: "files \<Rightarrow> jsstring \<Rightarrow> error + buffer" where
  "readFileSync fs p = (case fs p of None \<Rightarrow> Inl ENOENT | Some b \<Rightarrow> Inr b)"

definition writeFileSync :: "files \<Rightarrow> jsstring \<Rightarrow> buffer \<Rightarrow> files" where
  "writeFileSync fs p b = fs(p \<mapsto> b)"

subsection \<open>\<open>embedMetadataMP4\<close> and \<open>extractMetadataMP4\<close>\<close>

text \<open>\<open>JSON.stringify({ manifest, signature })\<close> for the two strings the function is
  given.\<close>

definition envelope :: "jsstring \<Rightarrow> jsstring \<Rightarrow> jsstring" where
  "envelope m sg = JSON_stringify (JObj [(js ''manifest'', JStr m), (js ''signature'', JStr sg)])"

text \<open>The function from the buffer read to the buffer written.\<close>

definition embedMetadataMP4_buffer :: "buffer \<Rightarrow> jsstring \<Rightarrow> jsstring \<Rightarrow> error + buffer" where
  "embedMetadataMP4_buffer fileBuffer m sg =
     then_do (findAndParseBox fileBuffer ''moov'') (\<lambda>moov.
       case moov of
         None \<Rightarrow> Inl NoMoovBox
       | Some moovBox \<Rightarrow>
           then_do (findAndParseBox (Box.data moovBox) ''meta'') (\<lambda>existingMetaBox.
             let metadataBuffer = utf8_encode (envelope m sg);
                 trace = \<lparr> uuid = TRACE_UUID, data = metadataBuffer \<rparr>
             in
             then_do
               (case existingMetaBox of
                  None \<Rightarrow> createMetaBox [trace]
                | Some metaBox \<Rightarrow>
                    then_do (extractUUIDBoxes (Box.data metaBox)) (\<lambda>uuidBoxes.
                      let otherUUIDBoxes = filter (\<lambda>box. uuid box \<noteq> TRACE_UUID) uuidBoxes
                      in createMetaBox (otherUUIDBoxes @ [trace])))
               (\<lambda>newMetaBox.
                  then_do (removeBoxFromBuffer (Box.data moovBox) ''meta'') (\<lambda>moovWithoutMeta.
                    let newMoovData = insertBox moovWithoutMeta newMetaBox in
                    then_do (createBox ''moov'' newMoovData) (\<lambda>newMoovBox.
                      replaceBoxInFile fileBuffer ''moov'' newMoovBox)))))"

text \<open>The function on the file system: the result of the call and the files after it.
  The only write is the last statement.\<close>

definition embedMetadataMP4 :: "files \<Rightarrow> jsstring \<Rightarrow> jsstring \<Rightarrow> jsstring \<Rightarrow> (error + unit) \<times> files" where
  "embedMetadataMP4 fs videoPath m sg =
     (case then_do (readFileSync fs videoPath) (\<lambda>fileBuffer. embedMetadataMP4_buffer fileBuffer m sg) of
        Inl e \<Rightarrow> (Inl e, fs)
      | Inr newFile \<Rightarrow> (Inr (), writeFileSync fs videoPath newFile))"

text \<open>The \<open>try\<close> block that ends both extract functions: a throw inside it gives
  \<open>null\<close>.\<close>

definition parse_envelope :: "jsstring \<Rightarrow> EmbeddedMetadata option" where
  "parse_envelope t =
     (case JSON_parse t of
        Inl e \<Rightarrow> None
      | Inr metadata \<Rightarrow>
          (case get_prop metadata ''manifest'' of
             Inl e \<Rightarrow> None
           | Inr m \<Rightarrow>
               (case get_prop metadata ''signature'' of
                  Inl e \<Rightarrow> None
                | Inr sg \<Rightarrow> Some \<lparr> manifest = m, signature = sg \<rparr>)))"

definition extractMetadataMP4_buffer :: "buffer \<Rightarrow> error + EmbeddedMetadata option" where
  "extractMetadataMP4_buffer fileBuffer =
     then_do (findAndParseBox fileBuffer ''moov'') (\<lambda>moov.
       case moov of
         None \<Rightarrow> Inr None
       | Some moovBox \<Rightarrow>
           then_do (findAndParseBox (Box.data moovBox) ''meta'') (\<lambda>meta.
             case meta of
               None \<Rightarrow> Inr None
             | Some metaBox \<Rightarrow>
                 then_do (extractUUIDBoxes (Box.data metaBox)) (\<lambda>uuidBoxes.
                   case find (\<lambda>box. uuid box = TRACE_UUID) uuidBoxes of
                     None \<Rightarrow> Inr None
                   | Some traceBox \<Rightarrow>
                       Inr (parse_envelope (utf8_decode (UUIDBox.data traceBox))))))"

definition extractMetadataMP4 :: "files \<Rightarrow> jsstring \<Rightarrow> error + EmbeddedMetadata option" where
  "extractMetadataMP4 fs videoPath =
     (if \<not> existsSync fs videoPath then Inr None
      else then_do (readFileSync fs videoPath) extractMetadataMP4_buffer)"


section \<open>\<open>metadata-embed.ts\<close>: the WebM path and the dispatch on the file extension\<close>

text \<open>\<open>buf.indexOf(pattern, start)\<close> and \<open>buf.lastIndexOf(pattern)\<close> for a pattern that
  is not empty (the program searches for \<open><!--TRACEPROV:\<close> and \<open>-->\<close>): the first
  position from \<open>start\<close> on, and the last position, at which the pattern stands; \<open>None\<close>
  is the \<open>-1\<close> of the platform.\<close>

fun first_index :: "buffer \<Rightarrow> buffer \<Rightarrow> nat option" where
  "first_index pat [] = None"
| "first_index pat (x # xs) =
     (if take (length pat) (x # xs) = pat then Some 0
      else map_option Suc (first_index pat xs))"

fun last_index :: "buffer \<Rightarrow> buffer \<Rightarrow> nat option" where
  "last_index pat [] = None"
| "last_index pat (x # xs) =
     (case last_index pat xs of
        Some i \<Rightarrow> Some (Suc i)
      | None \<Rightarrow> if take (length pat) (x # xs) = pat then Some 0 else None)"

definition indexOf :: "buffer \<Rightarrow> buffer \<Rightarrow> nat \<Rightarrow> nat option" where
  "indexOf buf pat start = map_option (\<lambda>i. start + i) (first_index pat (drop start buf))"

definition lastIndexOf :: "buffer \<Rightarrow> buffer \<Rightarrow> nat option" where
  "lastIndexOf buf pat = last_index pat buf"

definition embedMetadataWebM_buffer :: "buffer \<Rightarrow> jsstring \<Rightarrow> jsstring \<Rightarrow> buffer" where
  "embedMetadataWebM_buffer fileBuffer m sg =
     (let metadata = envelope m sg;
          tagMarker = utf8_encode (0x0A # js ''<!--TRACEPROV:'' @ base64_encode (utf8_encode metadata)
                                   @ js ''-->'')
      in fileBuffer @ tagMarker)"

definition embedMetadataWebM :: "files \<Rightarrow> jsstring \<Rightarrow> jsstring \<Rightarrow> jsstring \<Rightarrow> (error + unit) \<times> files" where
  "embedMetadataWebM fs videoPath m sg =
     (case readFileSync fs videoPath of
        Inl e \<Rightarrow> (Inl e, fs)
      | Inr fileBuffer \<Rightarrow>
          (Inr (), writeFileSync fs videoPath (embedMetadataWebM_buffer fileBuffer m sg)))"

definition extractMetadataWebM_buffer :: "buffer \<Rightarrow> EmbeddedMetadata option" where
  "extractMetadataWebM_buffer fileBuffer =
     (let tagMarkerBytes = utf8_encode (js ''<!--TRACEPROV:'') in
      case lastIndexOf fileBuffer tagMarkerBytes of
        None \<Rightarrow> None
      | Some index \<Rightarrow>
          let start = index + length tagMarkerBytes in
          (case indexOf fileBuffer (utf8_encode (js ''-->'')) start of
             None \<Rightarrow> None
           | Some end_index \<Rightarrow>
               let base64Data = utf8_decode (subarray fileBuffer start end_index)
               in parse_envelope (utf8_decode (base64_decode base64Data))))"

definition extractMetadataWebM :: "files \<Rightarrow> jsstring \<Rightarrow> error + EmbeddedMetadata option" where
  "extractMetadataWebM fs videoPath =
     (if \<not> existsSync fs videoPath then Inr None
      else then_do (readFileSync fs videoPath) (\<lambda>fileBuffer.
             Inr (extractMetadataWebM_buffer fileBuffer)))"

text \<open>
  \<open>filePath.split('.').pop()?.toLowerCase()\<close>: the text after the last dot (the whole
  path when it has none), in lower case. Only the ASCII letters are lowered here; no
  other character has a lower case that is a letter of \<open>mp4\<close> or \<open>webm\<close>, so the two
  comparisons are the program's.
\<close>

definition last_segment :: "jsstring \<Rightarrow> jsstring" where
  "last_segment p = rev (takeWhile (\<lambda>u. u \<noteq> 0x2E) (rev p))"

definition toLowerCase :: "jsstring \<Rightarrow> jsstring" where
  "toLowerCase t = map (\<lambda>u. if 0x41 \<le> unat u \<and> unat u \<le> 0x5A then u + 0x20 else u) t"

datatype media = MP4 | WEBM

definition getMediaType :: "jsstring \<Rightarrow> media option" where
  "getMediaType filePath =
     (let ext = toLowerCase (last_segment filePath) in
      if ext = js ''mp4'' then Some MP4
      else if ext = js ''webm'' then Some WEBM
      else None)"

definition embedMetadata :: "files \<Rightarrow> jsstring \<Rightarrow> jsstring \<Rightarrow> jsstring \<Rightarrow> (error + unit) \<times> files" where
  "embedMetadata fs videoPath m sg =
     (case getMediaType videoPath of
        None \<Rightarrow> (Inl Unsupported, fs)
      | Some MP4 \<Rightarrow> embedMetadataMP4 fs videoPath m sg
      | Some WEBM \<Rightarrow> embedMetadataWebM fs videoPath m sg)"

definition extractMetadata :: "files \<Rightarrow> jsstring \<Rightarrow> error + EmbeddedMetadata option" where
  "extractMetadata fs videoPath =
     (case getMediaType videoPath of
        None \<Rightarrow> Inr None
      | Some MP4 \<Rightarrow> extractMetadataMP4 fs videoPath
      | Some WEBM \<Rightarrow> extractMetadataWebM fs videoPath)"


section \<open>\<open>index.ts\<close>: the canonical encoding\<close>

text \<open>
  The keys of an object come out of \<open>Object.keys\<close> and of \<open>JSON.stringify\<close> in the
  order of the language: first the keys that are array indices (the decimal numerals of
  the integers below \<open>2^32 - 1\<close>, without leading zeros), by value, then the other keys
  in the order in which they were added.
\<close>

definition digits_value :: "jsstring \<Rightarrow> nat" where
  "digits_value k = foldl (\<lambda>a u. a * 10 + (unat u - 48)) 0 k"

definition is_array_index :: "jsstring \<Rightarrow> bool" where
  "is_array_index k \<longleftrightarrow>
     k \<noteq> [] \<and> list_all is_digit k \<and> (k = [0x30] \<or> hd k \<noteq> 0x30) \<and>
     digits_value k < 2 ^ 32 - 1"

definition own_property_order :: "(jsstring \<times> json) list \<Rightarrow> (jsstring \<times> json) list" where
  "own_property_order ms =
     sort_key (\<lambda>m. digits_value (fst m)) (filter (\<lambda>m. is_array_index (fst m)) ms)
     @ filter (\<lambda>m. \<not> is_array_index (fst m)) ms"

text \<open>
  The members that the assignments \<open>sorted[key] = value\<close> leave in the object literal
  \<open>sorted\<close>, for keys that are distinct. Under every key but one the assignment adds a
  member. Under the key \<open>__proto__\<close> it runs the setter that the object inherits from
  \<open>Object.prototype\<close>: the value becomes the prototype of \<open>sorted\<close> when it is an
  object or \<open>null\<close>, nothing happens otherwise, and no member is added in either case.
  \<open>JSON.stringify\<close> writes the members of the object itself and never those of its
  prototype, so the member is lost to the encoding.
\<close>

definition assigned :: "(jsstring \<times> json) list \<Rightarrow> (jsstring \<times> json) list" where
  "assigned ms = filter (\<lambda>m. fst m \<noteq> js ''__proto__'') ms"

text \<open>
  \<open>sortKeys\<close>: \<open>null\<close> and what is not an object are returned as they are, an array is
  mapped, and an object is built anew by assigning, for each key in the order of
  \<open>Object.keys(o).sort()\<close>, which compares code units, the image of the value under that
  key. The keys of an object are distinct, so sorting the members by key is that loop.
\<close>

primrec sortKeys :: "json \<Rightarrow> json" where
  "sortKeys JNull = JNull"
| "sortKeys (JBool b) = JBool b"
| "sortKeys (JNum t) = JNum t"
| "sortKeys (JStr t) = JStr t"
| "sortKeys (JArr xs) = JArr (map sortKeys xs)"
| "sortKeys (JObj ms) =
     JObj (own_property_order
       (assigned (sort_key fst (map (map_prod (\<lambda>k. k) sortKeys) ms))))"

definition canonicalJSON :: "json \<Rightarrow> jsstring" where
  "canonicalJSON obj = JSON_stringify (sortKeys obj)"

section \<open>\<open>index.ts\<close>: \<open>verifyManifest\<close>\<close>

text \<open>
  What the program takes from \<open>crypto\<close>, \<open>path\<close> and \<open>Buffer\<close> and this theory does not
  define: the functions are parameters. \<open>createPublicKey\<close> and \<open>verify\<close> may throw;
  \<open>Buffer_from_object\<close> is \<open>Buffer.from\<close> on an array or an object, which depends on the
  values of numbers.
\<close>

record 'k platform =
  createPublicKey :: "jsstring \<Rightarrow> error + 'k"
  verify :: "buffer \<Rightarrow> 'k \<Rightarrow> buffer \<Rightarrow> error + bool"
  sha256_hex :: "buffer \<Rightarrow> jsstring"
  Buffer_from_object :: "json \<Rightarrow> error + buffer"
  basename :: "jsstring \<Rightarrow> jsstring \<Rightarrow> jsstring"
  dirname :: "jsstring \<Rightarrow> jsstring"
  join :: "jsstring \<Rightarrow> jsstring \<Rightarrow> jsstring"

datatype VerificationResult = VALID | INVALID | INCONCLUSIVE

datatype source = EmbeddedSource | SidecarSource

text \<open>The messages returned with the result.\<close>

datatype message =
    VideoNotFound
  | ManifestNotFound
  | SignatureNotFound
  | SidecarReadError error
  | SignatureFailed
  | HashMismatch
  | Verified source
  | VerificationError error

text \<open>\<open>ToString\<close> of a value, which \<open>JSON.parse\<close> applies to its argument.\<close>

fun ToString :: "json \<Rightarrow> jsstring"
  and ToString_elements :: "json list \<Rightarrow> jsstring list" where
  "ToString JNull = js ''null''"
| "ToString (JBool b) = (if b then js ''true'' else js ''false'')"
| "ToString (JNum t) = t"
| "ToString (JStr t) = t"
| "ToString (JArr xs) = join_comma (ToString_elements xs)"
| "ToString (JObj ms) = js ''[object Object]''"
| "ToString_elements [] = []"
| "ToString_elements (x # xs) = (if x = JNull then [] else ToString x) # ToString_elements xs"

definition ToString_value :: "json option \<Rightarrow> jsstring" where
  "ToString_value v = (case v of None \<Rightarrow> js ''undefined'' | Some x \<Rightarrow> ToString x)"

text \<open>\<open>Buffer.from(value, 'base64')\<close>.\<close>

definition Buffer_from_base64 :: "'k platform \<Rightarrow> json option \<Rightarrow> error + buffer" where
  "Buffer_from_base64 pf v =
     (case v of
        Some (JStr t) \<Rightarrow> Inr (base64_decode t)
      | Some (JArr xs) \<Rightarrow> Buffer_from_object pf (JArr xs)
      | Some (JObj ms) \<Rightarrow> Buffer_from_object pf (JObj ms)
      | _ \<Rightarrow> Inl TypeError)"

definition computeFileHash :: "'k platform \<Rightarrow> files \<Rightarrow> jsstring \<Rightarrow> error + jsstring" where
  "computeFileHash pf fs filePath =
     then_do (readFileSync fs filePath) (\<lambda>fileBuffer. Inr (js ''sha256:'' @ sha256_hex pf fileBuffer))"

definition getSidecarPaths :: "'k platform \<Rightarrow> jsstring \<Rightarrow> jsstring \<times> jsstring" where
  "getSidecarPaths pf videoPath =
     (let ext = last_segment videoPath;
          baseName = basename pf videoPath (0x2E # ext);
          dir = dirname pf videoPath;
          basePath = join pf dir baseName
      in (basePath @ js ''.prov.json'', basePath @ js ''.prov.sig''))"

text \<open>The first \<open>try\<close> block: the manifest and the signature from the container.\<close>

definition resolve_embedded :: "files \<Rightarrow> jsstring \<Rightarrow> error + json \<times> json option" where
  "resolve_embedded fs videoPath =
     then_do (extractMetadata fs videoPath) (\<lambda>embedded.
       case embedded of
         None \<Rightarrow> Inl NoEmbedded
       | Some em \<Rightarrow>
           then_do (JSON_parse (ToString_value (manifest em))) (\<lambda>m. Inr (m, signature em)))"

text \<open>Its \<open>catch\<close> block: the sidecar files, at the paths given when both are given
  and not empty, else at the paths beside the asset. \<open>Inl\<close> is a result returned from
  there.\<close>

definition sidecarPaths_of ::
  "'k platform \<Rightarrow> jsstring \<Rightarrow> jsstring option \<Rightarrow> jsstring option \<Rightarrow> jsstring \<times> jsstring" where
  "sidecarPaths_of pf videoPath manifestPath signaturePath =
     (case (manifestPath, signaturePath) of
        (Some mp, Some sp) \<Rightarrow>
          if mp \<noteq> [] \<and> sp \<noteq> [] then (mp, sp) else getSidecarPaths pf videoPath
      | _ \<Rightarrow> getSidecarPaths pf videoPath)"

definition resolve_sidecar ::
  "'k platform \<Rightarrow> files \<Rightarrow> jsstring \<Rightarrow> jsstring option \<Rightarrow> jsstring option
   \<Rightarrow> VerificationResult \<times> message + json \<times> json option" where
  "resolve_sidecar pf fs videoPath manifestPath signaturePath =
     (let sidecarPaths = sidecarPaths_of pf videoPath manifestPath signaturePath
      in if \<not> existsSync fs (fst sidecarPaths) then Inl (INCONCLUSIVE, ManifestNotFound)
         else if \<not> existsSync fs (snd sidecarPaths) then Inl (INCONCLUSIVE, SignatureNotFound)
         else
           (case then_do (readFileSync fs (fst sidecarPaths)) (\<lambda>manifestBytes.
                   then_do (JSON_parse (utf8_decode manifestBytes)) (\<lambda>m.
                     then_do (readFileSync fs (snd sidecarPaths)) (\<lambda>signatureBytes.
                       Inr (m, Some (JStr (utf8_decode signatureBytes)))))) of
              Inl e \<Rightarrow> Inl (INCONCLUSIVE, SidecarReadError e)
            | Inr r \<Rightarrow> Inr r))"

text \<open>The last \<open>try\<close> block, with its \<open>catch\<close>.\<close>

definition verify_block ::
  "'k platform \<Rightarrow> files \<Rightarrow> jsstring \<Rightarrow> json \<Rightarrow> json option \<Rightarrow> source
   \<Rightarrow> VerificationResult \<times> message" where
  "verify_block pf fs videoPath m sg src =
     (case
        (let canonicalJson = canonicalJSON m in
         then_do (get_prop m ''provider'') (\<lambda>provider.
         then_do (get_prop_of provider ''public_key'') (\<lambda>public_key.
         then_do (Buffer_from_base64 pf public_key) (\<lambda>keyBytes.
         then_do (createPublicKey pf (utf8_decode keyBytes)) (\<lambda>publicKeyObj.
         let data_bytes = utf8_encode canonicalJson in
         then_do (Buffer_from_base64 pf sg) (\<lambda>signatureBuffer.
         then_do (verify pf data_bytes publicKeyObj signatureBuffer) (\<lambda>signatureValid.
         if \<not> signatureValid then Inr (INVALID, SignatureFailed)
         else
           then_do (computeFileHash pf fs videoPath) (\<lambda>currentHash.
           then_do (get_prop m ''output'') (\<lambda>output.
           then_do (get_prop_of output ''hash'') (\<lambda>manifestHash.
           if manifestHash \<noteq> Some (JStr currentHash) then Inr (INVALID, HashMismatch)
           else Inr (VALID, Verified src))))))))))) of
        Inl e \<Rightarrow> (INCONCLUSIVE, VerificationError e)
      | Inr r \<Rightarrow> r)"

definition verifyManifest ::
  "'k platform \<Rightarrow> files \<Rightarrow> jsstring \<Rightarrow> jsstring option \<Rightarrow> jsstring option
   \<Rightarrow> VerificationResult \<times> message" where
  "verifyManifest pf fs videoPath manifestPath signaturePath =
     (if \<not> existsSync fs videoPath then (INCONCLUSIVE, VideoNotFound)
      else
        case resolve_embedded fs videoPath of
          Inr (m, sg) \<Rightarrow> verify_block pf fs videoPath m sg EmbeddedSource
        | Inl e \<Rightarrow>
            (case resolve_sidecar pf fs videoPath manifestPath signaturePath of
               Inl r \<Rightarrow> r
             | Inr (m, sg) \<Rightarrow> verify_block pf fs videoPath m sg SidecarSource))"


subsection \<open>The parts of the verification the claims name\<close>

text \<open>
  The manifest and signature the verifier settles on, and from where: the container when
  it holds an envelope whose manifest parses, else the sidecar files when both exist and
  the manifest parses; \<open>None\<close> when neither source gives them.
\<close>

definition resolved ::
  "'k platform \<Rightarrow> files \<Rightarrow> jsstring \<Rightarrow> jsstring option \<Rightarrow> jsstring option
   \<Rightarrow> (json \<times> json option \<times> source) option" where
  "resolved pf fs videoPath manifestPath signaturePath =
     (case resolve_embedded fs videoPath of
        Inr (m, sg) \<Rightarrow> Some (m, sg, EmbeddedSource)
      | Inl e \<Rightarrow>
          (case resolve_sidecar pf fs videoPath manifestPath signaturePath of
             Inr (m, sg) \<Rightarrow> Some (m, sg, SidecarSource)
           | Inl r \<Rightarrow> None))"

text \<open>The text handed to \<open>createPublicKey\<close>: \<open>manifest.provider.public_key\<close>, decoded
  from base64 and read as UTF-8. Reading the property may throw.\<close>

definition public_key_pem :: "'k platform \<Rightarrow> json \<Rightarrow> error + jsstring" where
  "public_key_pem pf m =
     then_do (get_prop m ''provider'') (\<lambda>provider.
     then_do (get_prop_of provider ''public_key'') (\<lambda>public_key.
     then_do (Buffer_from_base64 pf public_key) (\<lambda>keyBytes. Inr (utf8_decode keyBytes))))"

text \<open>Whether the signature verifies over the canonical encoding derived anew from the
  parsed manifest, under the key the manifest names; \<open>Inl\<close> when a step throws.\<close>

definition signature_check :: "'k platform \<Rightarrow> json \<Rightarrow> json option \<Rightarrow> error + bool" where
  "signature_check pf m sg =
     then_do (public_key_pem pf m) (\<lambda>publicKeyPem.
     then_do (createPublicKey pf publicKeyPem) (\<lambda>publicKeyObj.
     then_do (Buffer_from_base64 pf sg) (\<lambda>signatureBuffer.
     verify pf (utf8_encode (canonicalJSON m)) publicKeyObj signatureBuffer)))"

text \<open>Whether the hash computed anew from the asset is \<open>manifest.output.hash\<close>.\<close>

definition hash_check :: "'k platform \<Rightarrow> files \<Rightarrow> jsstring \<Rightarrow> json \<Rightarrow> error + bool" where
  "hash_check pf fs videoPath m =
     then_do (computeFileHash pf fs videoPath) (\<lambda>currentHash.
     then_do (get_prop m ''output'') (\<lambda>output.
     then_do (get_prop_of output ''hash'') (\<lambda>manifestHash.
     Inr (manifestHash = Some (JStr currentHash)))))"

lemma resolve_sidecar_Inl:
  "resolve_sidecar pf fs videoPath mp sp = Inl r \<Longrightarrow> fst r = INCONCLUSIVE"
  by (auto simp: resolve_sidecar_def Let_def split: if_splits sum.splits)

lemma verify_block_cases:
  "verify_block pf fs videoPath m sg src =
     (case signature_check pf m sg of
        Inl e \<Rightarrow> (INCONCLUSIVE, VerificationError e)
      | Inr False \<Rightarrow> (INVALID, SignatureFailed)
      | Inr True \<Rightarrow>
          (case hash_check pf fs videoPath m of
             Inl e \<Rightarrow> (INCONCLUSIVE, VerificationError e)
           | Inr False \<Rightarrow> (INVALID, HashMismatch)
           | Inr True \<Rightarrow> (VALID, Verified src)))"
  by (simp add: verify_block_def signature_check_def public_key_pem_def hash_check_def
        then_do_def Let_def split: sum.splits bool.splits)

lemma verifyManifest_resolved:
  "existsSync fs videoPath \<Longrightarrow> resolved pf fs videoPath mp sp = Some (m, sg, src) \<Longrightarrow>
   verifyManifest pf fs videoPath mp sp = verify_block pf fs videoPath m sg src"
  by (auto simp: verifyManifest_def resolved_def split: sum.splits)

lemma verifyManifest_unresolved:
  "existsSync fs videoPath \<Longrightarrow> resolved pf fs videoPath mp sp = None \<Longrightarrow>
   fst (verifyManifest pf fs videoPath mp sp) = INCONCLUSIVE"
  by (auto simp: verifyManifest_def resolved_def split: sum.splits dest: resolve_sidecar_Inl)


section \<open>Evaluating the model on given inputs\<close>

lemma unat_of_char [simp]: "unat (of_char c :: 16 word) = of_char c"
proof -
  have "(of_char c :: 16 word) = of_nat (of_char c)" by (simp only: of_nat_of_char)
  moreover have "(of_char c :: nat) < 2 ^ 16"
    by (rule less_trans [OF nat_of_char_less_256]) simp
  ultimately show ?thesis by (simp add: unat_of_nat)
qed

lemma of_char_word_eq_iff [simp]: "(of_char c :: 16 word) = of_char d \<longleftrightarrow> c = d"
proof
  assume "(of_char c :: 16 word) = of_char d"
  then have "unat (of_char c :: 16 word) = unat (of_char d :: 16 word)" by simp
  then show "c = d" by simp
qed simp

lemma js_eq_iff [simp]: "js a = js b \<longleftrightarrow> a = b"
  unfolding js_def by (rule inj_map_eq_map) (simp add: inj_def)

lemma js_Nil_iff [simp]: "js a = [] \<longleftrightarrow> a = []"
  by (simp add: js_def)

lemmas text_eval = js_def QuoteJSONString_def quote_unit_def is_high_def is_low_def utf8_unit_def
  utf8_pair_def unicode_escape_def hex_digit_def replacement_def replacement_bytes_def is_cont_def
  second_ok_def cont_bits_def surrogates_of_def utf8_encode.simps utf8_decode.simps

lemmas json_eval = JSON_parse_def skip_ws_def is_ws_def hex_value_def simple_escape_def
  cons_unit_def is_digit_def number_int_def number_frac_def number_exp_def parse_number_def
  obj_put_def parse_fuel_numeral parse_string_body.simps

lemmas box_eval = findAndParseBox_def findAndParseBox_from.simps findAndParseBox_body_def
  findAndParseBox_tag_def readUInt32BE_def readUInt64BE_def subarray_def subarray_from_def
  be_nat_def u32be_def writeUInt32BE_def extractUUIDBoxes_def extractUUIDBoxes_from.simps
  extractUUIDBoxes_body_def extractUUIDBoxes_header_def createUUIDBox_def createMetaBox_def
  createBox_def removeBoxFromBuffer_def insertBox_def replaceBoxInFile_def TRACE_UUID_def Let_def

lemmas fs_eval = existsSync_def readFileSync_def writeFileSync_def

section \<open>C6: a file without a \<open>moov\<close> box\<close>

text \<open>
  C6. When the scan of the file finds no top-level \<open>moov\<close> box, \<open>embedMetadataMP4\<close>
  throws \<open>MP4 file does not contain moov box\<close> and the files are as they were (nothing
  is written), and \<open>extractMetadataMP4\<close> on the same file returns \<open>null\<close> without
  throwing.
\<close>

theorem missing_moov_embed_throws_extract_null:
  assumes "fs videoPath = Some fileBuffer"
    and "findAndParseBox fileBuffer ''moov'' = Inr None"
  shows "embedMetadataMP4 fs videoPath m sg = (Inl NoMoovBox, fs) \<and>
         extractMetadataMP4 fs videoPath = Inr None"
  using assms
  by (simp add: embedMetadataMP4_def embedMetadataMP4_buffer_def extractMetadataMP4_def
        extractMetadataMP4_buffer_def readFileSync_def existsSync_def)

text \<open>An instance: a file that holds a \<open>ftyp\<close> box and a \<open>free\<close> box only.\<close>

definition no_moov_file :: buffer where
  "no_moov_file = u32be 16 @ ''ftypisom'' @ u32be 0 @ u32be 12 @ ''freeabcd''"

theorem missing_moov_embed_throws_extract_null_witness:
  "[js ''clip.mp4'' \<mapsto> no_moov_file] (js ''clip.mp4'') = Some no_moov_file \<and>
   findAndParseBox no_moov_file ''moov'' = Inr None \<and>
   embedMetadataMP4 [js ''clip.mp4'' \<mapsto> no_moov_file] (js ''clip.mp4'') (js ''m'') (js ''s'')
     = (Inl NoMoovBox, [js ''clip.mp4'' \<mapsto> no_moov_file]) \<and>
   extractMetadataMP4 [js ''clip.mp4'' \<mapsto> no_moov_file] (js ''clip.mp4'') = Inr None"
proof -
  have h1: "[js ''clip.mp4'' \<mapsto> no_moov_file] (js ''clip.mp4'') = Some no_moov_file"
    by simp
  have h2: "findAndParseBox no_moov_file ''moov'' = Inr None"
    by (simp add: no_moov_file_def box_eval)
  from missing_moov_embed_throws_extract_null
         [where fs = "[js ''clip.mp4'' \<mapsto> no_moov_file]" and videoPath = "js ''clip.mp4''"
            and fileBuffer = no_moov_file and m = "js ''m''" and sg = "js ''s''"] h1 h2
  show ?thesis by blast
qed

section \<open>C1: embedding into an MP4 file and extracting again\<close>

text \<open>
  C1 fails on the code. \<open>createUUIDBox\<close> writes the 16-byte vendor identifier at bytes
  8 to 23 of a \<open>uuid\<close> box and the payload from byte 24. \<open>extractUUIDBoxes\<close> reads them
  at \<open>offset + 8\<close> and \<open>offset + 24\<close> after \<open>offset\<close> has moved on to the tag, that is
  at bytes 12 to 27 and from byte 28. The identifier read is never \<open>TRACE_UUID\<close>, so
  \<open>extractMetadataMP4\<close> returns \<open>null\<close> on the file \<open>embedMetadataMP4\<close> has just written.
  Below, a file of a \<open>ftyp\<close> box and a \<open>moov\<close> box holding one \<open>mvhd\<close> box is stamped
  with the pair \<open>("m", "s")\<close>: the stamped file holds the envelope in a \<open>uuid\<close> box
  inside \<open>moov/meta\<close>, and extraction from it gives \<open>null\<close>.
\<close>

definition mp4_file :: buffer where
  "mp4_file = u32be 16 @ ''ftypisom'' @ u32be 0 @ u32be 20 @ ''moov'' @ u32be 12 @ ''mvhdabcd''"

definition stamped_file :: buffer where
  "stamped_file =
     u32be 16 @ ''ftypisom'' @ u32be 0 @ u32be 88 @ ''moov'' @ u32be 12 @ ''mvhdabcd'' @
     u32be 68 @ ''meta'' @ u32be 0 @ u32be 56 @ ''uuid'' @ TRACE_UUID @
     utf8_encode (envelope (js ''m'') (js ''s''))"

lemma envelope_m_s:
  "utf8_encode (envelope (js ''m'') (js ''s'')) =
     ''{'' @ [CHR 0x22] @ ''manifest'' @ [CHR 0x22] @ '':'' @ [CHR 0x22] @ ''m'' @ [CHR 0x22] @
     '','' @ [CHR 0x22] @ ''signature'' @ [CHR 0x22] @ '':'' @ [CHR 0x22] @ ''s'' @ [CHR 0x22] @
     ''}''"
  by (simp add: envelope_def text_eval char_of_eq_iff)

lemma embed_mp4_file: "embedMetadataMP4_buffer mp4_file (js ''m'') (js ''s'') = Inr stamped_file"
  unfolding embedMetadataMP4_buffer_def stamped_file_def mp4_file_def envelope_m_s
  by (simp add: box_eval)

lemma extract_stamped_file: "extractMetadataMP4_buffer stamped_file = Inr None"
  unfolding extractMetadataMP4_buffer_def stamped_file_def envelope_m_s
  by (simp add: box_eval)

theorem embedMetadataMP4_then_extract_returns_null:
  "embedMetadataMP4 [js ''clip.mp4'' \<mapsto> mp4_file] (js ''clip.mp4'') (js ''m'') (js ''s'')
     = (Inr (), [js ''clip.mp4'' \<mapsto> stamped_file]) \<and>
   extractMetadataMP4 [js ''clip.mp4'' \<mapsto> stamped_file] (js ''clip.mp4'') = Inr None"
  by (simp add: embedMetadataMP4_def extractMetadataMP4_def fs_eval embed_mp4_file
        extract_stamped_file)


section \<open>\<open>verifyManifest\<close>: its states\<close>

subsection \<open>A platform and files to run it on\<close>

text \<open>
  A stand-in for the platform: one key text is accepted, and a signature verifies when
  it is the bytes \<open>SIG\<close>; every file hashes to \<open>00\<close>. The asset \<open>clip.mp4\<close> holds no
  box, so the manifest comes from the sidecar files \<open>m.json\<close> and \<open>m.sig\<close>, given by
  their paths. In base64, \<open>S0VZ\<close> is \<open>KEY\<close>, \<open>U0lH\<close> is \<open>SIG\<close> and \<open>QkFE\<close> is
  \<open>BAD\<close>.
\<close>

definition test_platform :: "unit platform" where
  "test_platform = \<lparr> createPublicKey = (\<lambda>pem. if pem = js ''KEY'' then Inr () else Inl KeyError),
      verify = (\<lambda>d k sg. Inr (sg = ''SIG'')),
      sha256_hex = (\<lambda>b. js ''00''),
      Buffer_from_object = (\<lambda>v. Inl TypeError),
      basename = (\<lambda>p e. p), dirname = (\<lambda>p. []), join = (\<lambda>d b. b) \<rparr>"

definition manifest_with :: "string \<Rightarrow> json" where
  "manifest_with key = JObj [(js ''provider'', JObj [(js ''public_key'', JStr (js key))]),
                         (js ''output'', JObj [(js ''hash'', JStr (js ''sha256:00''))])]"

definition no_output_manifest :: json where
  "no_output_manifest = JObj [(js ''provider'', JObj [(js ''public_key'', JStr (js ''S0VZ''))])]"

definition sidecar_files :: "json \<Rightarrow> string \<Rightarrow> files" where
  "sidecar_files m sg = [js ''clip.mp4'' \<mapsto> ''data'',
                 js ''m.json'' \<mapsto> utf8_encode (JSON_stringify m),
                 js ''m.sig'' \<mapsto> sg]"

lemma sidecar_files_lookup:
  "sidecar_files m sg (js ''clip.mp4'') = Some ''data''"
  "sidecar_files m sg (js ''m.json'') = Some (utf8_encode (JSON_stringify m))"
  "sidecar_files m sg (js ''m.sig'') = Some sg"
  by (simp_all add: sidecar_files_def)

lemma getMediaType_clip: "getMediaType (js ''clip.mp4'') = Some MP4"
  by (simp add: getMediaType_def last_segment_def toLowerCase_def js_def)

lemma no_embedded_clip: "resolve_embedded (sidecar_files m sg) (js ''clip.mp4'') = Inl NoEmbedded"
  by (simp add: resolve_embedded_def extractMetadata_def getMediaType_clip extractMetadataMP4_def
        extractMetadataMP4_buffer_def sidecar_files_lookup fs_eval box_eval)

lemma parse_manifest_with:
  "JSON_parse (utf8_decode (utf8_encode (JSON_stringify (manifest_with ''S0VZ'')))) = Inr (manifest_with ''S0VZ'')"
  "JSON_parse (utf8_decode (utf8_encode (JSON_stringify (manifest_with ''QkFE'')))) = Inr (manifest_with ''QkFE'')"
  "JSON_parse (utf8_decode (utf8_encode (JSON_stringify no_output_manifest))) = Inr no_output_manifest"
  by (simp_all add: manifest_with_def no_output_manifest_def text_eval json_eval)

lemma resolved_sidecar_files:
  assumes "JSON_parse (utf8_decode (utf8_encode (JSON_stringify m))) = Inr m"
  shows "resolved test_platform (sidecar_files m sg) (js ''clip.mp4'') (Some (js ''m.json'')) (Some (js ''m.sig''))
   = Some (m, Some (JStr (utf8_decode sg)), SidecarSource)"
  using assms
  by (simp add: resolved_def no_embedded_clip resolve_sidecar_def sidecarPaths_of_def
        sidecar_files_lookup fs_eval)

lemma decode_texts:
  "utf8_decode ''U0lH'' = js ''U0lH''" "utf8_decode ''QkFE'' = js ''QkFE''"
  "base64_decode (js ''U0lH'') = ''SIG''" "base64_decode (js ''QkFE'') = ''BAD''" "base64_decode (js ''S0VZ'') = ''KEY''"
  "utf8_decode ''KEY'' = js ''KEY''" "utf8_decode ''BAD'' = js ''BAD''"
  by (simp_all add: js_def base64_decode_def unbase64_def low_byte_def char_of_eq_iff
        utf8_decode.simps)

lemma sig_ok: "signature_check test_platform (manifest_with ''S0VZ'') (Some (JStr (js ''U0lH''))) = Inr True"
  by (simp add: signature_check_def public_key_pem_def get_prop_def get_prop_of_def manifest_with_def
      Buffer_from_base64_def decode_texts test_platform_def)

lemma sig_ok2: "signature_check test_platform no_output_manifest (Some (JStr (js ''U0lH''))) = Inr True"
  by (simp add: signature_check_def public_key_pem_def get_prop_def get_prop_of_def no_output_manifest_def
      Buffer_from_base64_def decode_texts test_platform_def)

lemma sig_bad: "signature_check test_platform (manifest_with ''S0VZ'') (Some (JStr (js ''QkFE''))) = Inr False"
  by (simp add: signature_check_def public_key_pem_def get_prop_def get_prop_of_def manifest_with_def
      Buffer_from_base64_def decode_texts test_platform_def)

lemma pem_bad: "public_key_pem test_platform (manifest_with ''QkFE'') = Inr (js ''BAD'')"
  by (simp add: public_key_pem_def get_prop_def get_prop_of_def manifest_with_def
      Buffer_from_base64_def decode_texts test_platform_def)

lemma key_bad: "createPublicKey test_platform (js ''BAD'') = Inl KeyError"
  by (simp add: test_platform_def)

lemma hash_ok: "hash_check test_platform (sidecar_files m sg) (js ''clip.mp4'') (manifest_with key) = Inr True"
proof -
  have j: "js ''sha256:'' @ js ''00'' = js ''sha256:00''" by (simp add: js_def)
  show ?thesis
    by (simp add: hash_check_def computeFileHash_def get_prop_def get_prop_of_def manifest_with_def
      test_platform_def sidecar_files_lookup fs_eval j)
qed

lemma hash_throws: "hash_check test_platform (sidecar_files m sg) (js ''clip.mp4'') no_output_manifest = Inl TypeError"
  by (simp add: hash_check_def computeFileHash_def get_prop_def get_prop_of_def no_output_manifest_def
      test_platform_def sidecar_files_lookup fs_eval)

lemma exists_clip: "existsSync (sidecar_files m sg) (js ''clip.mp4'')"
  by (simp add: existsSync_def sidecar_files_lookup)


subsection \<open>C2: the order of the checks\<close>

text \<open>
  C2 as stated lists five outcomes and nothing else. The code has one more: an error
  thrown inside the last \<open>try\<close> block is caught and reported as \<open>INCONCLUSIVE\<close>. Here the
  asset is present, the sidecar manifest parses and its signature verifies, but the
  manifest has no \<open>output\<close>: reading \<open>manifest.output.hash\<close> throws, and the result is
  neither \<open>INVALID\<close> (a hash mismatch) nor \<open>VALID\<close>.
\<close>

theorem verifyManifest_missing_output_counterexample:
  "existsSync (sidecar_files no_output_manifest ''U0lH'') (js ''clip.mp4'') \<and>
   resolved test_platform (sidecar_files no_output_manifest ''U0lH'') (js ''clip.mp4'')
       (Some (js ''m.json'')) (Some (js ''m.sig''))
     = Some (no_output_manifest, Some (JStr (js ''U0lH'')), SidecarSource) \<and>
   signature_check test_platform no_output_manifest (Some (JStr (js ''U0lH''))) = Inr True \<and>
   verifyManifest test_platform (sidecar_files no_output_manifest ''U0lH'') (js ''clip.mp4'')
       (Some (js ''m.json'')) (Some (js ''m.sig''))
     = (INCONCLUSIVE, VerificationError TypeError)"
proof -
  have r: "resolved test_platform (sidecar_files no_output_manifest ''U0lH'') (js ''clip.mp4'')
       (Some (js ''m.json'')) (Some (js ''m.sig''))
     = Some (no_output_manifest, Some (JStr (js ''U0lH'')), SidecarSource)"
    by (simp add: resolved_sidecar_files parse_manifest_with decode_texts)
  show ?thesis
    by (simp add: exists_clip r sig_ok2 verifyManifest_resolved [OF exists_clip r]
          verify_block_cases hash_throws)
qed

text \<open>
  C2, as the code has it. The result is settled in this order: the asset is absent:
  \<open>INCONCLUSIVE\<close>; neither the container nor the sidecar files give a manifest that
  parses and a signature: \<open>INCONCLUSIVE\<close>; checking the signature over the canonical
  encoding derived anew from the manifest throws: \<open>INCONCLUSIVE\<close>; the signature does not
  verify: \<open>INVALID\<close>; computing the hash or reading \<open>manifest.output.hash\<close> throws:
  \<open>INCONCLUSIVE\<close>; the hash computed anew differs from \<open>manifest.output.hash\<close>:
  \<open>INVALID\<close>; otherwise \<open>VALID\<close>. So the result is \<open>VALID\<close> only when the signature
  verifies and the hash matches.
\<close>

theorem verifyManifest_states:
  "fst (verifyManifest pf fs videoPath mp sp) =
     (if \<not> existsSync fs videoPath then INCONCLUSIVE
      else case resolved pf fs videoPath mp sp of
             None \<Rightarrow> INCONCLUSIVE
           | Some (m, sg, src) \<Rightarrow>
               (case signature_check pf m sg of
                  Inl e \<Rightarrow> INCONCLUSIVE
                | Inr False \<Rightarrow> INVALID
                | Inr True \<Rightarrow>
                    (case hash_check pf fs videoPath m of
                       Inl e \<Rightarrow> INCONCLUSIVE
                     | Inr False \<Rightarrow> INVALID
                     | Inr True \<Rightarrow> VALID))) \<and>
   (fst (verifyManifest pf fs videoPath mp sp) = VALID \<longrightarrow>
      (\<exists>m sg src. existsSync fs videoPath \<and>
         resolved pf fs videoPath mp sp = Some (m, sg, src) \<and>
         signature_check pf m sg = Inr True \<and> hash_check pf fs videoPath m = Inr True))"
proof -
  have eq: "fst (verifyManifest pf fs videoPath mp sp) =
     (if \<not> existsSync fs videoPath then INCONCLUSIVE
      else case resolved pf fs videoPath mp sp of
             None \<Rightarrow> INCONCLUSIVE
           | Some (m, sg, src) \<Rightarrow>
               (case signature_check pf m sg of
                  Inl e \<Rightarrow> INCONCLUSIVE
                | Inr False \<Rightarrow> INVALID
                | Inr True \<Rightarrow>
                    (case hash_check pf fs videoPath m of
                       Inl e \<Rightarrow> INCONCLUSIVE
                     | Inr False \<Rightarrow> INVALID
                     | Inr True \<Rightarrow> VALID)))"
  proof (cases "existsSync fs videoPath")
    case False
    then show ?thesis by (simp add: verifyManifest_def)
  next
    case True
    show ?thesis
    proof (cases "resolved pf fs videoPath mp sp")
      case None
      with True show ?thesis by (simp add: verifyManifest_unresolved)
    next
      case (Some r)
      obtain m sg src where "r = (m, sg, src)" by (cases r) auto
      with True Some show ?thesis
        by (simp add: verifyManifest_resolved verify_block_cases split: sum.splits bool.splits)
    qed
  qed
  have "\<exists>m sg src. existsSync fs videoPath \<and>
         resolved pf fs videoPath mp sp = Some (m, sg, src) \<and>
         signature_check pf m sg = Inr True \<and> hash_check pf fs videoPath m = Inr True"
    if v: "fst (verifyManifest pf fs videoPath mp sp) = VALID"
    using v unfolding eq
    by (auto split: if_splits option.splits sum.splits bool.splits)
  with eq show ?thesis by blast
qed

text \<open>An instance: a manifest with the accepted key and the hash of the asset, signed
  with \<open>SIG\<close>, is \<open>VALID\<close>.\<close>

theorem verifyManifest_states_witness:
  "existsSync (sidecar_files (manifest_with ''S0VZ'') ''U0lH'') (js ''clip.mp4'') \<and>
   fst (verifyManifest test_platform (sidecar_files (manifest_with ''S0VZ'') ''U0lH'')
          (js ''clip.mp4'') (Some (js ''m.json'')) (Some (js ''m.sig''))) = VALID \<and>
   signature_check test_platform (manifest_with ''S0VZ'') (Some (JStr (js ''U0lH''))) = Inr True \<and>
   hash_check test_platform (sidecar_files (manifest_with ''S0VZ'') ''U0lH'') (js ''clip.mp4'')
     (manifest_with ''S0VZ'') = Inr True"
proof -
  have r: "resolved test_platform (sidecar_files (manifest_with ''S0VZ'') ''U0lH'')
       (js ''clip.mp4'') (Some (js ''m.json'')) (Some (js ''m.sig''))
     = Some (manifest_with ''S0VZ'', Some (JStr (js ''U0lH'')), SidecarSource)"
    by (simp add: resolved_sidecar_files parse_manifest_with decode_texts)
  from verifyManifest_states [of test_platform "sidecar_files (manifest_with ''S0VZ'') ''U0lH''"
         "js ''clip.mp4''" "Some (js ''m.json'')" "Some (js ''m.sig'')"]
  have "fst (verifyManifest test_platform (sidecar_files (manifest_with ''S0VZ'') ''U0lH'')
          (js ''clip.mp4'') (Some (js ''m.json'')) (Some (js ''m.sig''))) = VALID"
    by (simp add: exists_clip r sig_ok hash_ok)
  then show ?thesis by (simp add: exists_clip sig_ok hash_ok)
qed

subsection \<open>C7: missing files\<close>

text \<open>
  C7. When the asset file does not exist the result is \<open>INCONCLUSIVE\<close>. When the asset
  exists, the container gives no manifest (extraction returns \<open>null\<close> or throws, or the
  embedded manifest does not parse) and the sidecar manifest file, or the sidecar
  signature file, does not exist, the result is \<open>INCONCLUSIVE\<close> as well. An asset from
  which \<open>extractMetadata\<close> returns \<open>null\<close> is such a case.
\<close>

theorem verifyManifest_missing_files_inconclusive:
  "(\<not> existsSync fs videoPath \<longrightarrow>
      verifyManifest pf fs videoPath mp sp = (INCONCLUSIVE, VideoNotFound)) \<and>
   (existsSync fs videoPath \<and> (\<exists>e. resolve_embedded fs videoPath = Inl e) \<and>
    \<not> existsSync fs (fst (sidecarPaths_of pf videoPath mp sp)) \<longrightarrow>
      verifyManifest pf fs videoPath mp sp = (INCONCLUSIVE, ManifestNotFound)) \<and>
   (existsSync fs videoPath \<and> (\<exists>e. resolve_embedded fs videoPath = Inl e) \<and>
    existsSync fs (fst (sidecarPaths_of pf videoPath mp sp)) \<and>
    \<not> existsSync fs (snd (sidecarPaths_of pf videoPath mp sp)) \<longrightarrow>
      verifyManifest pf fs videoPath mp sp = (INCONCLUSIVE, SignatureNotFound)) \<and>
   (extractMetadata fs videoPath = Inr None \<longrightarrow> resolve_embedded fs videoPath = Inl NoEmbedded)"
  by (auto simp: verifyManifest_def resolve_sidecar_def resolve_embedded_def Let_def)

text \<open>Instances: no file at all; the asset alone; the asset with a sidecar manifest and
  no sidecar signature.\<close>

theorem verifyManifest_missing_files_inconclusive_witness:
  "\<not> existsSync Map.empty (js ''clip.mp4'') \<and>
   verifyManifest test_platform Map.empty (js ''clip.mp4'') None None
     = (INCONCLUSIVE, VideoNotFound) \<and>
   existsSync [js ''clip.mp4'' \<mapsto> ''data''] (js ''clip.mp4'') \<and>
   extractMetadata [js ''clip.mp4'' \<mapsto> ''data''] (js ''clip.mp4'') = Inr None \<and>
   \<not> existsSync [js ''clip.mp4'' \<mapsto> ''data'']
       (fst (sidecarPaths_of test_platform (js ''clip.mp4'') None None)) \<and>
   verifyManifest test_platform [js ''clip.mp4'' \<mapsto> ''data''] (js ''clip.mp4'') None None
     = (INCONCLUSIVE, ManifestNotFound)"
proof -
  have h1: "\<not> existsSync Map.empty (js ''clip.mp4'')" by (simp add: existsSync_def)
  have h2: "existsSync [js ''clip.mp4'' \<mapsto> ''data''] (js ''clip.mp4'')"
    by (simp add: existsSync_def)
  have h3: "extractMetadata [js ''clip.mp4'' \<mapsto> ''data''] (js ''clip.mp4'') = Inr None"
    by (simp add: extractMetadata_def getMediaType_clip extractMetadataMP4_def
          extractMetadataMP4_buffer_def fs_eval box_eval)
  have p: "fst (sidecarPaths_of test_platform (js ''clip.mp4'') None None)
             = js ''clip.mp4'' @ js ''.prov.json''"
    by (simp add: sidecarPaths_of_def getSidecarPaths_def test_platform_def Let_def)
  have h4: "\<not> existsSync [js ''clip.mp4'' \<mapsto> ''data'']
       (fst (sidecarPaths_of test_platform (js ''clip.mp4'') None None))"
    unfolding p by (simp add: existsSync_def js_def)
  note t = verifyManifest_missing_files_inconclusive
  from t [of Map.empty "js ''clip.mp4''" test_platform None None] h1
  have c1: "verifyManifest test_platform Map.empty (js ''clip.mp4'') None None
     = (INCONCLUSIVE, VideoNotFound)" by blast
  from t [of "[js ''clip.mp4'' \<mapsto> ''data'']" "js ''clip.mp4''" test_platform None None] h3
  have e: "resolve_embedded [js ''clip.mp4'' \<mapsto> ''data''] (js ''clip.mp4'') = Inl NoEmbedded"
    by blast
  from t [of "[js ''clip.mp4'' \<mapsto> ''data'']" "js ''clip.mp4''" test_platform None None] h2 e h4
  have c2: "verifyManifest test_platform [js ''clip.mp4'' \<mapsto> ''data''] (js ''clip.mp4'') None None
     = (INCONCLUSIVE, ManifestNotFound)" by blast
  from h1 h2 h3 h4 c1 c2 show ?thesis by blast
qed

subsection \<open>C8: cryptographic failures\<close>

text \<open>
  C8 as stated fails for malformed key material. The manifest below names the key text
  \<open>BAD\<close>, which \<open>createPublicKey\<close> refuses by throwing; the \<open>catch\<close> of the last \<open>try\<close>
  block turns that into \<open>INCONCLUSIVE\<close>, not \<open>INVALID\<close>.
\<close>

theorem verifyManifest_malformed_key_counterexample:
  "existsSync (sidecar_files (manifest_with ''QkFE'') ''U0lH'') (js ''clip.mp4'') \<and>
   resolved test_platform (sidecar_files (manifest_with ''QkFE'') ''U0lH'') (js ''clip.mp4'')
       (Some (js ''m.json'')) (Some (js ''m.sig''))
     = Some (manifest_with ''QkFE'', Some (JStr (js ''U0lH'')), SidecarSource) \<and>
   public_key_pem test_platform (manifest_with ''QkFE'') = Inr (js ''BAD'') \<and>
   createPublicKey test_platform (js ''BAD'') = Inl KeyError \<and>
   verifyManifest test_platform (sidecar_files (manifest_with ''QkFE'') ''U0lH'') (js ''clip.mp4'')
       (Some (js ''m.json'')) (Some (js ''m.sig''))
     = (INCONCLUSIVE, VerificationError KeyError)"
proof -
  have r: "resolved test_platform (sidecar_files (manifest_with ''QkFE'') ''U0lH'') (js ''clip.mp4'')
       (Some (js ''m.json'')) (Some (js ''m.sig''))
     = Some (manifest_with ''QkFE'', Some (JStr (js ''U0lH'')), SidecarSource)"
    by (simp add: resolved_sidecar_files parse_manifest_with decode_texts)
  have s: "signature_check test_platform (manifest_with ''QkFE'') (Some (JStr (js ''U0lH'')))
             = Inl KeyError"
    by (simp add: signature_check_def pem_bad key_bad)
  show ?thesis
    by (simp add: exists_clip r pem_bad key_bad verifyManifest_resolved [OF exists_clip r]
          verify_block_cases s)
qed

text \<open>
  C8, as the code has it. Once a manifest and a signature are settled on: a signature
  that does not verify gives \<open>INVALID\<close>; key material that \<open>createPublicKey\<close> refuses, and
  any other error thrown while the signature is checked, gives \<open>INCONCLUSIVE\<close> with the
  error in the message. No such failure gives \<open>VALID\<close> or goes unreported.
\<close>

theorem verifyManifest_cryptographic_failures:
  assumes "existsSync fs videoPath"
    and "resolved pf fs videoPath mp sp = Some (m, sg, src)"
  shows "(signature_check pf m sg = Inr False \<longrightarrow>
            verifyManifest pf fs videoPath mp sp = (INVALID, SignatureFailed)) \<and>
         (\<forall>pem e. public_key_pem pf m = Inr pem \<and> createPublicKey pf pem = Inl e \<longrightarrow>
            verifyManifest pf fs videoPath mp sp = (INCONCLUSIVE, VerificationError e)) \<and>
         (\<forall>e. signature_check pf m sg = Inl e \<longrightarrow>
            verifyManifest pf fs videoPath mp sp = (INCONCLUSIVE, VerificationError e))"
  using assms
  by (auto simp: verifyManifest_resolved verify_block_cases signature_check_def)

text \<open>Instances: the signature \<open>BAD\<close> under the accepted key is \<open>INVALID\<close>; the key text
  \<open>BAD\<close> is \<open>INCONCLUSIVE\<close>.\<close>

theorem verifyManifest_cryptographic_failures_witness:
  "existsSync (sidecar_files (manifest_with ''S0VZ'') ''QkFE'') (js ''clip.mp4'') \<and>
   resolved test_platform (sidecar_files (manifest_with ''S0VZ'') ''QkFE'') (js ''clip.mp4'')
       (Some (js ''m.json'')) (Some (js ''m.sig''))
     = Some (manifest_with ''S0VZ'', Some (JStr (js ''QkFE'')), SidecarSource) \<and>
   signature_check test_platform (manifest_with ''S0VZ'') (Some (JStr (js ''QkFE''))) = Inr False \<and>
   verifyManifest test_platform (sidecar_files (manifest_with ''S0VZ'') ''QkFE'') (js ''clip.mp4'')
       (Some (js ''m.json'')) (Some (js ''m.sig''))
     = (INVALID, SignatureFailed)"
proof -
  have r: "resolved test_platform (sidecar_files (manifest_with ''S0VZ'') ''QkFE'') (js ''clip.mp4'')
       (Some (js ''m.json'')) (Some (js ''m.sig''))
     = Some (manifest_with ''S0VZ'', Some (JStr (js ''QkFE'')), SidecarSource)"
    by (simp add: resolved_sidecar_files parse_manifest_with decode_texts)
  from verifyManifest_cryptographic_failures [OF exists_clip r] sig_bad
  have "verifyManifest test_platform (sidecar_files (manifest_with ''S0VZ'') ''QkFE'') (js ''clip.mp4'')
       (Some (js ''m.json'')) (Some (js ''m.sig''))
     = (INVALID, SignatureFailed)" by blast
  with exists_clip r sig_bad show ?thesis by blast
qed


section \<open>C3: the canonical encoding is deterministic\<close>

text \<open>
  Two values have the same contents when they differ at most in the order of the members
  of their objects: the same keys, and under each key values with the same contents.
  Arrays have the same contents element by element, in order.
\<close>

inductive same_contents :: "json \<Rightarrow> json \<Rightarrow> bool" where
  sc_null: "same_contents JNull JNull"
| sc_bool: "same_contents (JBool b) (JBool b)"
| sc_num: "same_contents (JNum t) (JNum t)"
| sc_str: "same_contents (JStr t) (JStr t)"
| sc_arr: "list_all2 same_contents xs ys \<Longrightarrow> same_contents (JArr xs) (JArr ys)"
| sc_obj: "distinct (map fst ms) \<Longrightarrow> mset (map fst ms) = mset (map fst ns) \<Longrightarrow>
     (\<forall>k v w. (k, v) \<in> set ms \<and> (k, w) \<in> set ns \<longrightarrow> same_contents v w) \<Longrightarrow>
     same_contents (JObj ms) (JObj ns)"

text \<open>No key of the value, at any depth, is an array index; the field names of a manifest
  are such keys.\<close>

fun plain_keys :: "json \<Rightarrow> bool" where
  "plain_keys (JArr xs) = (\<forall>x \<in> set xs. plain_keys x)"
| "plain_keys (JObj ms) = (\<forall>m \<in> set ms. \<not> is_array_index (fst m) \<and> plain_keys (snd m))"
| "plain_keys _ = True"

text \<open>No key of the value, at any depth, is \<open>__proto__\<close>; no field of a manifest has that
  name.\<close>

fun no_proto_keys :: "json \<Rightarrow> bool" where
  "no_proto_keys (JArr xs) = (\<forall>x \<in> set xs. no_proto_keys x)"
| "no_proto_keys (JObj ms) = (\<forall>m \<in> set ms. fst m \<noteq> js ''__proto__'' \<and> no_proto_keys (snd m))"
| "no_proto_keys _ = True"

text \<open>A key that is neither: the assignment under it adds a member after those already
  there.\<close>

definition plain_key :: "jsstring \<Rightarrow> bool" where
  "plain_key k \<longleftrightarrow> \<not> is_array_index k \<and> k \<noteq> js ''__proto__''"

text \<open>The keys of every object of the value stand in strictly ascending order of their
  code units.\<close>

fun keys_sorted :: "json \<Rightarrow> bool" where
  "keys_sorted (JArr xs) = (\<forall>x \<in> set xs. keys_sorted x)"
| "keys_sorted (JObj ms) = (sorted_wrt (<) (map fst ms) \<and> (\<forall>m \<in> set ms. keys_sorted (snd m)))"
| "keys_sorted _ = True"

text \<open>The keys of every object of the value are distinct, as those of an object of the
  language are.\<close>

fun distinct_keys :: "json \<Rightarrow> bool" where
  "distinct_keys (JArr xs) = (\<forall>x \<in> set xs. distinct_keys x)"
| "distinct_keys (JObj ms) = (distinct (map fst ms) \<and> (\<forall>m \<in> set ms. distinct_keys (snd m)))"
| "distinct_keys _ = True"

text \<open>The text of one member of an object in the canonical encoding: the quoted key, a
  colon, and the canonical encoding of the value.\<close>

definition canonical_member :: "jsstring \<times> json \<Rightarrow> jsstring" where
  "canonical_member m = QuoteJSONString (fst m) @ 0x3A # canonicalJSON (snd m)"


text \<open>The members sorted by key are the loop of the source: for each key of
  \<open>Object.keys(o).sort()\<close>, the key with \<open>sortKeys(o[key])\<close>.\<close>

lemma sort_members_is_the_loop:
  fixes ms :: "(jsstring \<times> json) list"
  assumes d: "distinct (map fst ms)"
  shows "sort_key fst (map (map_prod (\<lambda>k. k) f) ms)
       = map (\<lambda>k. (k, f (the (map_of ms k)))) (sort (map fst ms))"
proof -
  let ?g = "map_prod (\<lambda>k. k) f"
  let ?h = "\<lambda>k. (k, f (the (map_of ms k)))"
  have pt: "?g m = ?h (fst m)" if "m \<in> set ms" for m
  proof -
    obtain k v where m: "m = (k, v)" by (cases m)
    with that d have "map_of ms k = Some v" by simp
    with m show ?thesis by simp
  qed
  have "mset (map ?g ms) = image_mset ?g (mset ms)" by simp
  also have "\<dots> = image_mset (\<lambda>m. ?h (fst m)) (mset ms)"
    by (rule image_mset_cong) (simp add: pt)
  also have "\<dots> = image_mset ?h (image_mset fst (mset ms))"
    by (simp add: image_mset.compositionality comp_def)
  also have "\<dots> = mset (map ?h (sort (map fst ms)))" by simp
  finally have m: "mset (map ?g ms) = mset (map ?h (sort (map fst ms)))" .
  have fst_ms: "map fst (map ?g ms) = map fst ms" by (simp add: comp_def)
  have "distinct (map fst (map ?g ms))" using d by (simp only: fst_ms)
  then have inj: "inj_on fst (set (map ?g ms))" by (simp only: distinct_map)
  have s: "sorted (map fst (map ?h (sort (map fst ms))))" by (simp add: comp_def)
  show ?thesis by (rule sort_key_inj_key_eq [OF m inj s])
qed

lemma map_eq_of_list_all2:
  "list_all2 (\<lambda>x y. P x y \<and> f x = f y) xs ys \<Longrightarrow> map f xs = map f ys"
  by (induction rule: list_all2_induct) auto

lemma sort_members_same:
  fixes ms ns :: "(jsstring \<times> json) list"
  assumes d: "distinct (map fst ms)"
    and k: "mset (map fst ms) = mset (map fst ns)"
    and v: "\<And>k v w. (k, v) \<in> set ms \<Longrightarrow> (k, w) \<in> set ns \<Longrightarrow> f v = f w"
  shows "sort_key fst (map (map_prod (\<lambda>k. k) f) ms) = sort_key fst (map (map_prod (\<lambda>k. k) f) ns)"
proof -
  let ?g = "map_prod (\<lambda>k. k) f"
  have fst_ms: "map fst (map ?g ms) = map fst ms" by (simp add: comp_def)
  have fst_ns: "map fst (map ?g ns) = map fst ns" by (simp add: comp_def)
  have dn: "distinct (map fst ns)"
    using d k by (metis mset_eq_imp_distinct_iff)
  have keys: "fst ` set ms = fst ` set ns"
    using mset_eq_setD [OF k] by simp
  have sub1: "set (map ?g ms) \<subseteq> set (map ?g ns)"
  proof
    fix p assume "p \<in> set (map ?g ms)"
    then obtain k v where kv: "(k, v) \<in> set ms" and p: "p = (k, f v)" by auto
    from kv have "k \<in> fst ` set ns" using keys by force
    then obtain w where kw: "(k, w) \<in> set ns" by auto
    from v [OF kv kw] p have "p = ?g (k, w)" by simp
    with kw show "p \<in> set (map ?g ns)" by (metis image_eqI set_map)
  qed
  have sub2: "set (map ?g ns) \<subseteq> set (map ?g ms)"
  proof
    fix p assume "p \<in> set (map ?g ns)"
    then obtain k w where kw: "(k, w) \<in> set ns" and p: "p = (k, f w)" by auto
    from kw have "k \<in> fst ` set ms" using keys by force
    then obtain v' where kv: "(k, v') \<in> set ms" by auto
    from v [OF kv kw] p have "p = ?g (k, v')" by simp
    with kv show "p \<in> set (map ?g ms)" by (metis image_eqI set_map)
  qed
  have "distinct (map fst (map ?g ms))" using d by (simp only: fst_ms)
  then have dm: "distinct (map ?g ms) \<and> inj_on fst (set (map ?g ms))"
    by (simp only: distinct_map)
  have "distinct (map fst (map ?g ns))" using dn by (simp only: fst_ns)
  then have dn': "distinct (map ?g ns)"
    by (simp only: distinct_map)
  have "set (map ?g ms) = set (map ?g ns)" using sub1 sub2 by blast
  then have "mset (map ?g ms) = mset (map ?g ns)"
    using dm dn' by (simp only: set_eq_iff_mset_eq_distinct)
  then have m: "mset (map ?g ms) = mset (sort_key fst (map ?g ns))"
    by (simp only: mset_sort)
  have inj: "inj_on fst (set (map ?g ms))" using dm by blast
  show ?thesis
    by (rule sort_key_inj_key_eq [OF m inj]) simp
qed

lemma sortKeys_same_contents: "same_contents a b \<Longrightarrow> sortKeys a = sortKeys b"
proof (induction rule: same_contents.induct)
  case (sc_arr xs ys)
  then show ?case by (simp add: map_eq_of_list_all2)
next
  case (sc_obj ms ns)
  have "sort_key fst (map (map_prod (\<lambda>k. k) sortKeys) ms)
      = sort_key fst (map (map_prod (\<lambda>k. k) sortKeys) ns)"
    using sc_obj by (intro sort_members_same) auto
  then show ?case by simp
qed simp_all


lemma mset_own_property_order: "mset (own_property_order l) = mset l"
  by (simp add: own_property_order_def)

lemma set_own_property_order: "set (own_property_order l) = set l"
  by (metis mset_own_property_order set_mset_mset)

lemma own_property_order_plain:
  "\<forall>m \<in> set l. \<not> is_array_index (fst m) \<Longrightarrow> own_property_order l = l"
proof -
  assume a: "\<forall>m \<in> set l. \<not> is_array_index (fst m)"
  then have "filter (\<lambda>m. is_array_index (fst m)) l = []" by (simp add: filter_empty_conv)
  moreover from a have "filter (\<lambda>m. \<not> is_array_index (fst m)) l = l" by (simp add: filter_id_conv)
  ultimately show ?thesis by (simp add: own_property_order_def)
qed

text \<open>Under plain keys every assignment adds its member at the end, so the object built
  holds the sorted members in their order.\<close>

lemma built_plain:
  assumes "\<forall>m \<in> set l. plain_key (fst m)"
  shows "own_property_order (assigned l) = l"
proof -
  from assms have "assigned l = l" by (simp add: assigned_def plain_key_def filter_id_conv)
  moreover from assms have "own_property_order l = l"
    by (intro own_property_order_plain) (simp add: plain_key_def)
  ultimately show ?thesis by simp
qed

lemma insort_members:
  "insort_key fst (map_prod (\<lambda>k. k) f m) (map (map_prod (\<lambda>k. k) f) ms)
     = map (map_prod (\<lambda>k. k) f) (insort_key fst m ms)"
  by (induction ms) auto

lemma sort_members_map:
  "sort_key fst (map (map_prod (\<lambda>k. k) f) ms) = map (map_prod (\<lambda>k. k) f) (sort_key fst ms)"
  by (induction ms) (simp_all add: insort_members)

lemma sortKeys_plain:
  assumes "\<forall>m \<in> set ms. plain_key (fst m)"
  shows "sortKeys (JObj ms) = JObj (map (map_prod (\<lambda>k. k) sortKeys) (sort_key fst ms))"
proof -
  let ?l = "map (map_prod (\<lambda>k. k) sortKeys) (sort_key fst ms)"
  from assms have "\<forall>m \<in> set ?l. plain_key (fst m)" by auto
  then have "own_property_order (assigned ?l) = ?l" by (rule built_plain)
  then show ?thesis by (simp add: sort_members_map)
qed

lemma set_assigned: "set (assigned l) \<subseteq> set l"
  by (auto simp add: assigned_def)

lemma sortKeys_keys_sorted:
  "distinct_keys v \<Longrightarrow> plain_keys v \<Longrightarrow> keys_sorted (sortKeys v)"
proof (induction v)
  case (JArr xs)
  then show ?case by auto
next
  case (JObj ms)
  let ?ms' = "map (map_prod (\<lambda>k. k) sortKeys) ms"
  let ?l = "sort_key fst ?ms'"
  have fst_ms: "map fst ?ms' = map fst ms" by (simp add: comp_def)
  have sub: "set (assigned ?l) \<subseteq> set ?l" by (rule set_assigned)
  have "\<forall>m \<in> set ?l. \<not> is_array_index (fst m)"
    using JObj.prems(2) by auto
  with sub have plain: "\<forall>m \<in> set (assigned ?l). \<not> is_array_index (fst m)" by blast
  have l: "own_property_order (assigned ?l) = assigned ?l"
    by (rule own_property_order_plain [OF plain])
  have "mset (map fst ?l) = mset (map fst ms)"
    by (metis fst_ms mset_map mset_sort)
  then have "distinct (map fst ?l)"
    using JObj.prems(1) by (metis distinct_keys.simps(2) mset_eq_imp_distinct_iff)
  moreover have "sorted (map fst ?l)" by (rule sorted_sort_key)
  ultimately have "sorted_wrt (<) (map fst ?l)" by (simp add: strict_sorted_iff)
  then have "sorted_wrt (\<lambda>m n. fst m < fst n) ?l" by (simp only: sorted_wrt_map)
  then have "sorted_wrt (\<lambda>m n. fst m < fst n) (assigned ?l)"
    unfolding assigned_def by (rule sorted_wrt_filter)
  then have s: "sorted_wrt (<) (map fst (assigned ?l))" by (simp only: sorted_wrt_map)
  have v: "keys_sorted (snd m)" if "m \<in> set (assigned ?l)" for m
  proof -
    from that sub have "m \<in> set ?l" by blast
    then obtain k x where kx: "(k, x) \<in> set ms" and m: "m = (k, sortKeys x)" by auto
    from kx JObj.prems have "distinct_keys x" "plain_keys x" by auto
    with JObj.IH kx have "keys_sorted (sortKeys x)"
      by (metis snds.intros snd_conv)
    with m show ?thesis by simp
  qed
  show ?case using l s v by simp
qed simp_all

lemma sortKeys_same_as_input:
  "distinct_keys v \<Longrightarrow> no_proto_keys v \<Longrightarrow> same_contents v (sortKeys v)"
proof (induction v)
  case (JArr xs)
  then have "list_all2 same_contents xs (map sortKeys xs)"
    by (simp add: list_all2_map2 list_all2_same)
  then show ?case by (simp add: sc_arr)
next
  case (JObj ms)
  let ?ms' = "map (map_prod (\<lambda>k. k) sortKeys) ms"
  let ?s = "sort_key fst ?ms'"
  let ?l = "own_property_order ?s"
  have fst_ms: "map fst ?ms' = map fst ms" by (simp add: comp_def)
  have d: "distinct (map fst ms)" using JObj.prems by simp
  have "\<forall>m \<in> set ?s. fst m \<noteq> js ''__proto__''"
    using JObj.prems(2) by auto
  then have a: "assigned ?s = ?s" by (simp add: assigned_def filter_id_conv)
  have "mset ?l = mset ?ms'" by (simp add: mset_own_property_order)
  then have "mset (map fst ?l) = mset (map fst ?ms')" by (metis mset_map)
  then have k: "mset (map fst ms) = mset (map fst ?l)" by (simp only: fst_ms)
  have setl: "set ?l = set ?ms'" by (simp add: set_own_property_order)
  have v: "same_contents x w" if "(k, x) \<in> set ms" "(k, w) \<in> set ?l" for k x w
  proof -
    from that(2) setl obtain x' where kx': "(k, x') \<in> set ms" and w: "w = sortKeys x'" by auto
    from d that(1) kx' have "x' = x" by (meson eq_key_imp_eq_value)
    moreover from JObj.prems that(1) have "distinct_keys x" "no_proto_keys x" by auto
    ultimately show ?thesis using JObj.IH that(1) w by (metis snds.intros snd_conv)
  qed
  have "same_contents (JObj ms) (JObj ?l)"
    by (rule sc_obj [OF d k]) (use v in blast)
  then show ?case using a by simp
qed (simp_all add: same_contents.intros)

text \<open>The text of an array and of an object, member by member.\<close>

lemma stringify_elements_map: "stringify_elements xs = map JSON_stringify xs"
  by (induction xs) simp_all

lemma stringify_members_map:
  "stringify_members ms = map (\<lambda>m. QuoteJSONString (fst m) @ 0x3A # JSON_stringify (snd m)) ms"
  by (induction ms) auto

lemma canonicalJSON_fun: "canonicalJSON = (\<lambda>x. JSON_stringify (sortKeys x))"
  by (rule ext) (simp add: canonicalJSON_def)

lemma canonical_member_fun:
  "canonical_member = (\<lambda>m. QuoteJSONString (fst m) @ 0x3A # JSON_stringify (sortKeys (snd m)))"
  by (rule ext) (simp add: canonical_member_def canonicalJSON_def)

lemma canonicalJSON_JArr:
  "canonicalJSON (JArr xs) = 0x5B # join_comma (map canonicalJSON xs) @ [0x5D]"
  by (simp add: canonicalJSON_fun stringify_elements_map comp_def)

lemma canonicalJSON_JObj:
  assumes "\<forall>m \<in> set ms. plain_key (fst m)"
  shows "canonicalJSON (JObj ms)
       = 0x7B # join_comma (map canonical_member (sort_key fst ms)) @ [0x7D]"
  unfolding canonicalJSON_def sortKeys_plain [OF assms]
  by (simp add: stringify_members_map comp_def canonical_member_fun)


text \<open>
  C3. \<open>canonicalJSON\<close> is a function of its argument alone, and two values with the same
  contents, whatever the order in which the keys of their objects were added, have the
  same encoding. In the value \<open>sortKeys\<close> builds, the keys of every object stand in
  strictly ascending order at every depth, for a value whose keys are not array indices
  (the language lists array-index keys first, by value, whatever the order they were
  added in). \<open>sortKeys\<close> keeps the contents of a value none of whose keys is \<open>__proto__\<close>
  (an assignment under that key adds no member). The field names of a manifest are
  neither, and for such keys the encoding of an object is its members in ascending order
  of their keys, each written as the quoted key, a colon and the canonical encoding of
  the value. The encoding of an array is the canonical encodings of its elements in the
  order of the array: an array keeps its length and the order of its elements, and an
  array of strings, as \<open>claims\<close> is, is returned as it is and written as its quoted
  strings.
\<close>

theorem canonicalJSON_deterministic:
  "(same_contents a b \<longrightarrow> canonicalJSON a = canonicalJSON b) \<and>
   (distinct_keys a \<and> plain_keys a \<longrightarrow> keys_sorted (sortKeys a)) \<and>
   (distinct_keys a \<and> no_proto_keys a \<longrightarrow> same_contents a (sortKeys a)) \<and>
   ((\<forall>m \<in> set ms. plain_key (fst m)) \<longrightarrow>
      canonicalJSON (JObj ms)
        = 0x7B # join_comma (map canonical_member (sort_key fst ms)) @ [0x7D]) \<and>
   canonicalJSON (JArr xs) = 0x5B # join_comma (map canonicalJSON xs) @ [0x5D] \<and>
   canonicalJSON (JArr (map JStr ts)) = 0x5B # join_comma (map QuoteJSONString ts) @ [0x5D] \<and>
   canonicalJSON (JStr t) = QuoteJSONString t \<and>
   sortKeys (JArr xs) = JArr (map sortKeys xs) \<and>
   sortKeys (JArr (map JStr ts)) = JArr (map JStr ts)"
proof (intro conjI impI)
  assume "same_contents a b"
  then show "canonicalJSON a = canonicalJSON b"
    by (simp add: canonicalJSON_def sortKeys_same_contents)
next
  assume "distinct_keys a \<and> plain_keys a"
  then show "keys_sorted (sortKeys a)" by (simp add: sortKeys_keys_sorted)
next
  assume "distinct_keys a \<and> no_proto_keys a"
  then show "same_contents a (sortKeys a)" by (simp add: sortKeys_same_as_input)
next
  assume "\<forall>m \<in> set ms. plain_key (fst m)"
  then show "canonicalJSON (JObj ms)
        = 0x7B # join_comma (map canonical_member (sort_key fst ms)) @ [0x7D]"
    by (rule canonicalJSON_JObj)
next
  show "canonicalJSON (JArr xs) = 0x5B # join_comma (map canonicalJSON xs) @ [0x5D]"
    by (rule canonicalJSON_JArr)
next
  show "canonicalJSON (JArr (map JStr ts)) = 0x5B # join_comma (map QuoteJSONString ts) @ [0x5D]"
    by (simp add: canonicalJSON_def stringify_elements_map comp_def)
next
  show "canonicalJSON (JStr t) = QuoteJSONString t" by (simp add: canonicalJSON_def)
next
  show "sortKeys (JArr xs) = JArr (map sortKeys xs)" by simp
next
  show "sortKeys (JArr (map JStr ts)) = JArr (map JStr ts)" by (simp add: comp_def)
qed


text \<open>An instance: one manifest, its keys added in two different orders.\<close>

definition members_a :: "(jsstring \<times> json) list" where
  "members_a = [(js ''output'', JObj [(js ''media_type'', JStr (js ''video/mp4'')),
                                      (js ''hash'', JStr (js ''sha256:00''))]),
                (js ''claims'', JArr [JStr (js ''ai_generated'')])]"

definition manifest_a :: json where
  "manifest_a = JObj members_a"

definition manifest_b :: json where
  "manifest_b = JObj [(js ''claims'', JArr [JStr (js ''ai_generated'')]),
                      (js ''output'', JObj [(js ''hash'', JStr (js ''sha256:00'')),
                                            (js ''media_type'', JStr (js ''video/mp4''))])]"

inductive_simps same_contents_JObj: "same_contents (JObj ms) (JObj ns)"
inductive_simps same_contents_JArr: "same_contents (JArr xs) (JArr ys)"
inductive_simps same_contents_JStr: "same_contents (JStr t) (JStr u)"

lemma same_ab: "same_contents manifest_a manifest_b"
  unfolding manifest_a_def members_a_def manifest_b_def
  by (auto simp: same_contents_JObj same_contents_JArr same_contents_JStr)

lemma plain_a: "distinct_keys manifest_a" "plain_keys manifest_a" "no_proto_keys manifest_a"
  by (simp_all add: manifest_a_def members_a_def is_array_index_def is_digit_def js_def)

lemma sorted_a: "sortKeys manifest_a = JObj [(js ''claims'', JArr [JStr (js ''ai_generated'')]),
                      (js ''output'', JObj [(js ''hash'', JStr (js ''sha256:00'')),
                                            (js ''media_type'', JStr (js ''video/mp4''))])]"
  by (simp add: manifest_a_def members_a_def own_property_order_def assigned_def
        is_array_index_def is_digit_def js_def)

lemma text_a: \<open>canonicalJSON manifest_a
    = js ''{"claims":["ai_generated"],"output":{"hash":"sha256:00","media_type":"video/mp4"}}''\<close>
  unfolding canonicalJSON_def sorted_a
  by (simp add: text_eval)

text \<open>The member that an assignment under \<open>__proto__\<close> does not add is missing from the
  encoding; what is left of the object is encoded as above.\<close>

lemma canonicalJSON_proto_member:
  \<open>canonicalJSON (JObj [(js ''__proto__'', JObj [(js ''a'', JStr (js ''1''))]),
                        (js ''b'', JStr (js ''2''))])
     = js ''{"b":"2"}''\<close>
  by (simp add: canonicalJSON_def own_property_order_def assigned_def is_array_index_def
        is_digit_def text_eval)

theorem canonicalJSON_deterministic_witness:
  \<open>same_contents manifest_a manifest_b \<and> canonicalJSON manifest_a = canonicalJSON manifest_b \<and>
   distinct_keys manifest_a \<and> plain_keys manifest_a \<and> no_proto_keys manifest_a \<and>
   keys_sorted (sortKeys manifest_a) \<and> same_contents manifest_a (sortKeys manifest_a) \<and>
   sortKeys manifest_a = manifest_b \<and>
   list_all (\<lambda>m. plain_key (fst m)) members_a \<and>
   canonicalJSON (JObj members_a)
     = 0x7B # join_comma (map canonical_member (sort_key fst members_a)) @ [0x7D] \<and>
   map fst (sort_key fst members_a) = [js ''claims'', js ''output''] \<and>
   canonicalJSON manifest_a
     = js ''{"claims":["ai_generated"],"output":{"hash":"sha256:00","media_type":"video/mp4"}}''\<close>
proof -
  note t = canonicalJSON_deterministic [of manifest_a manifest_b members_a]
  from t same_ab have "canonicalJSON manifest_a = canonicalJSON manifest_b" by blast
  moreover from t plain_a have "keys_sorted (sortKeys manifest_a)" by blast
  moreover from t plain_a have "same_contents manifest_a (sortKeys manifest_a)" by blast
  moreover have "sortKeys manifest_a = manifest_b" by (simp add: sorted_a manifest_b_def)
  moreover have pk: "list_all (\<lambda>m. plain_key (fst m)) members_a"
    by (simp add: members_a_def plain_key_def is_array_index_def is_digit_def js_def)
  moreover from t pk have "canonicalJSON (JObj members_a)
     = 0x7B # join_comma (map canonical_member (sort_key fst members_a)) @ [0x7D]"
    by (simp add: list_all_iff)
  moreover have "map fst (sort_key fst members_a) = [js ''claims'', js ''output'']"
    by (simp add: members_a_def js_def)
  ultimately show ?thesis using same_ab plain_a text_a by blast
qed

section \<open>The encodings are inverted by their decoders\<close>

subsection \<open>ASCII text and base64\<close>

text \<open>A run of bytes below 128: the same text as bytes and as code units.\<close>

definition ascii :: "string \<Rightarrow> bool" where
  "ascii s \<longleftrightarrow> (\<forall>c \<in> set s. (of_char c :: nat) < 128)"

lemma ascii_simps [simp]:
  "ascii []" "ascii (c # s) \<longleftrightarrow> (of_char c :: nat) < 128 \<and> ascii s"
  "ascii (s @ t) \<longleftrightarrow> ascii s \<and> ascii t"
  by (auto simp: ascii_def)

lemma js_append [simp]: "js (s @ t) = js s @ js t"
  by (simp add: js_def)

lemma js_Cons: "js (c # s) = of_char c # js s"
  by (simp add: js_def)

lemma length_js [simp]: "length (js s) = length s"
  by (simp add: js_def)

lemma utf8_encode_Cons_plain:
  "\<not> is_high u \<Longrightarrow> utf8_encode (u # us) = utf8_unit u @ utf8_encode us"
  by (cases us) (simp_all add: utf8_encode.simps)

lemma utf8_unit_ascii:
  "(of_char c :: nat) < 128 \<Longrightarrow> utf8_unit (of_char c) = [c] \<and> \<not> is_high (of_char c)"
  by (simp add: utf8_unit_def is_high_def)

lemma utf8_encode_js: "ascii s \<Longrightarrow> utf8_encode (js s) = s"
  by (induction s) (simp_all add: js_Cons utf8_encode_Cons_plain utf8_unit_ascii utf8_encode.simps js_def)

lemma utf8_decode_ascii_append: "ascii s \<Longrightarrow> utf8_decode (s @ bs) = js s @ utf8_decode bs"
proof (induction s)
  case Nil
  show ?case by (simp add: js_def)
next
  case (Cons c s)
  then have "utf8_decode (c # s @ bs) = of_nat (of_char c) # utf8_decode (s @ bs)"
    by (simp add: utf8_decode.simps)
  with Cons show ?case by (simp add: js_Cons of_nat_of_char)
qed

lemma utf8_decode_ascii: "ascii s \<Longrightarrow> utf8_decode s = js s"
  using utf8_decode_ascii_append [of s "[]"] by (simp add: utf8_decode.simps)

lemma b64_char_code:
  "n < 64 \<Longrightarrow> (of_char (b64_char n) :: nat) =
     (if n < 26 then 65 + n else if n < 52 then 71 + n else if n < 62 then n - 4
      else if n = 62 then 43 else 47)"
  by (simp add: b64_char_def)

lemma low_byte_of_char [simp]: "low_byte (of_char c) = of_char c"
  by (simp add: low_byte_def)

lemma unbase64_b64_char: "n < 64 \<Longrightarrow> unbase64 (of_char (b64_char n)) = Some n"
  by (auto simp add: unbase64_def b64_char_code Let_def)

lemma low_byte_pad [simp]: "low_byte 61 = 61"
  by (simp add: low_byte_def)

lemma b64_char_not_pad: "n < 64 \<Longrightarrow> (of_char (b64_char n) :: nat) \<noteq> 61"
  by (auto simp add: b64_char_code)

lemma b64_char_plain:
  "n < 64 \<Longrightarrow> (of_char (b64_char n) :: nat) < 128 \<and> b64_char n \<noteq> CHR ''<'' \<and> b64_char n \<noteq> CHR ''-''"
proof -
  assume n: "n < 64"
  have "(of_char (b64_char n) :: nat) \<noteq> of_char CHR ''<''" "(of_char (b64_char n) :: nat) \<noteq> of_char CHR ''-''"
    using n by (auto simp add: b64_char_code)
  moreover have "(of_char (b64_char n) :: nat) < 128" using n by (auto simp add: b64_char_code)
  ultimately show ?thesis by (metis)
qed


text \<open>What \<open>toString('base64')\<close> writes: ASCII without \<open><\<close> and \<open>-\<close>.\<close>

definition b64_text :: "string \<Rightarrow> bool" where
  "b64_text s \<longleftrightarrow> (\<forall>c \<in> set s. (of_char c :: nat) < 128 \<and> c \<noteq> CHR ''<'' \<and> c \<noteq> CHR ''-'')"

lemma base64_chars_text: "b64_text (base64_chars bs)"
proof (induction bs rule: base64_chars.induct)
  case 1
  show ?case by (simp add: b64_text_def)
next
  case (2 a)
  have "(of_char a :: nat) div 4 < 64" "(of_char a :: nat) mod 4 * 16 < 64"
    using nat_of_char_less_256 [of a] by (simp_all add: less_mult_imp_div_less) 
  then show ?case by (simp add: b64_text_def Let_def b64_char_plain)
next
  case (3 a b)
  have "(of_char a :: nat) div 4 < 64" "(of_char a :: nat) mod 4 * 16 + of_char b div 16 < 64"
    "(of_char b :: nat) mod 16 * 4 < 64"
    using nat_of_char_less_256 [of a] nat_of_char_less_256 [of b] by arith+
  then show ?case by (simp add: b64_text_def Let_def b64_char_plain)
next
  case (4 a b c rest)
  have "(of_char a :: nat) div 4 < 64" "(of_char a :: nat) mod 4 * 16 + of_char b div 16 < 64"
    "(of_char b :: nat) mod 16 * 4 + of_char c div 64 < 64" "(of_char c :: nat) mod 64 < 64"
    using nat_of_char_less_256 [of a] nat_of_char_less_256 [of b] nat_of_char_less_256 [of c] by arith+
  with 4 show ?case by (simp add: b64_text_def Let_def b64_char_plain)
qed


lemma base64_sextets_chars4:
  assumes "s1 < 64" "s2 < 64" "s3 < 64" "s4 < 64"
  shows "base64_sextets (js (b64_char s1 # b64_char s2 # b64_char s3 # b64_char s4 # rest))
       = s1 # s2 # s3 # s4 # base64_sextets (js rest)"
  using assms by (simp add: js_Cons unbase64_b64_char b64_char_not_pad)

lemma byte_parts:
  fixes v :: nat
  assumes "v < 256"
  shows "v div 16 div 16 = 0" "v div 16 mod 16 = v div 16"
    "v div 64 div 4 = 0" "v div 64 mod 4 = v div 64"
  using assms by (simp_all add: div_mult2_eq [symmetric] less_mult_imp_div_less)

lemma b64_arith:
  fixes x y z :: nat
  assumes "x < 256" "y < 256" "z < 256"
  shows "x div 4 * 4 + x mod 4 * 16 div 16 = x"
    and "x div 4 * 4 + (x mod 4 * 16 + y div 16) div 16 = x"
    and "(x mod 4 * 16 + y div 16) mod 16 * 16 + y mod 16 * 4 div 4 = y"
    and "(x mod 4 * 16 + y div 16) mod 16 * 16 + (y mod 16 * 4 + z div 64) div 4 = y"
    and "(y mod 16 * 4 + z div 64) mod 4 * 64 + z mod 64 = z"
  using byte_parts [OF assms(2)] byte_parts [OF assms(3)] by simp_all

lemma base64_decode_encode: "base64_decode (js (base64_chars bs)) = bs"
proof (induction bs rule: base64_chars.induct)
  case 1
  show ?case by (simp add: base64_decode_def js_def)
next
  case (2 a)
  let ?x = "of_char a :: nat"
  note ar = b64_arith [OF nat_of_char_less_256 [of a] nat_of_char_less_256 [of a]
      nat_of_char_less_256 [of a]]
  have b: "?x div 4 < 64" "?x mod 4 * 16 < 64"
    using nat_of_char_less_256 [of a] by arith+
  have "base64_sextets (js (base64_chars [a])) = [?x div 4, ?x mod 4 * 16]"
    using b by (simp add: Let_def js_Cons unbase64_b64_char b64_char_not_pad)
  then have "base64_decode (js (base64_chars [a]))
           = [char_of (?x div 4 * 4 + ?x mod 4 * 16 div 16)]"
    by (simp only: base64_decode_def base64_bytes.simps)
  then show ?case by (simp only: ar char_of_char)
next
  case (3 a b)
  let ?x = "of_char a :: nat" and ?y = "of_char b :: nat"
  note ar = b64_arith [OF nat_of_char_less_256 [of a] nat_of_char_less_256 [of b]
      nat_of_char_less_256 [of b]]
  have bd: "?x div 4 < 64" "?x mod 4 * 16 + ?y div 16 < 64" "?y mod 16 * 4 < 64"
    using nat_of_char_less_256 [of a] nat_of_char_less_256 [of b] by arith+
  have "base64_sextets (js (base64_chars [a, b]))
      = [?x div 4, ?x mod 4 * 16 + ?y div 16, ?y mod 16 * 4]"
    using bd by (simp add: Let_def js_Cons unbase64_b64_char b64_char_not_pad)
  then have "base64_decode (js (base64_chars [a, b]))
      = [char_of (?x div 4 * 4 + (?x mod 4 * 16 + ?y div 16) div 16),
         char_of ((?x mod 4 * 16 + ?y div 16) mod 16 * 16 + ?y mod 16 * 4 div 4)]"
    by (simp only: base64_decode_def base64_bytes.simps)
  then show ?case by (simp only: ar char_of_char)
next
  case (4 a b c rest)
  let ?x = "of_char a :: nat" and ?y = "of_char b :: nat" and ?z = "of_char c :: nat"
  note ar = b64_arith [OF nat_of_char_less_256 [of a] nat_of_char_less_256 [of b]
      nat_of_char_less_256 [of c]]
  have bd: "?x div 4 < 64" "?x mod 4 * 16 + ?y div 16 < 64" "?y mod 16 * 4 + ?z div 64 < 64"
    "?z mod 64 < 64"
    using nat_of_char_less_256 [of a] nat_of_char_less_256 [of b] nat_of_char_less_256 [of c]
    by arith+
  have "base64_sextets (js (base64_chars (a # b # c # rest)))
      = ?x div 4 # (?x mod 4 * 16 + ?y div 16) # (?y mod 16 * 4 + ?z div 64) # ?z mod 64
        # base64_sextets (js (base64_chars rest))"
    using bd by (simp add: Let_def base64_sextets_chars4)
  then have "base64_decode (js (base64_chars (a # b # c # rest)))
      = char_of (?x div 4 * 4 + (?x mod 4 * 16 + ?y div 16) div 16)
        # char_of ((?x mod 4 * 16 + ?y div 16) mod 16 * 16 + (?y mod 16 * 4 + ?z div 64) div 4)
        # char_of ((?y mod 16 * 4 + ?z div 64) mod 4 * 64 + ?z mod 64)
        # base64_decode (js (base64_chars rest))"
    by (simp only: base64_decode_def base64_bytes.simps)
  then show ?case using 4 by (simp only: ar char_of_char)
qed


subsection \<open>UTF-8\<close>

lemma utf8_arith2:
  fixes n :: nat
  assumes "128 \<le> n" "n < 2048"
  shows "n div 64 < 32" "2 \<le> n div 64"
proof -
  show "n div 64 < 32" using assms(2) by (simp add: less_mult_imp_div_less)
  show "2 \<le> n div 64" using div_le_mono [OF assms(1), of 64] by simp
qed

lemma div_4096: "(n::nat) div 4096 = n div 64 div 64"
  by (simp add: div_mult2_eq [symmetric])

lemma div_262144: "(n::nat) div 262144 = n div 64 div 64 div 64"
  by (simp add: div_mult2_eq [symmetric])

lemma utf8_arith3:
  fixes n :: nat
  assumes "2048 \<le> n" "n < 65536"
  shows "n div 4096 < 16"
    and "(n div 4096 * 64 + n div 64 mod 64) * 64 + n mod 64 = n"
    and "n div 4096 = 0 \<Longrightarrow> 32 \<le> n div 64 mod 64"
    and "n div 4096 = 13 \<Longrightarrow> n < 55296 \<Longrightarrow> n div 64 mod 64 \<le> 31"
    and "n div 4096 = 13 \<Longrightarrow> n < 57344"
proof -
  have q: "n div 64 = n div 4096 * 64 + n div 64 mod 64"
    unfolding div_4096 by simp
  show "n div 4096 < 16" using assms(2) by (simp add: less_mult_imp_div_less)
  show "(n div 4096 * 64 + n div 64 mod 64) * 64 + n mod 64 = n"
    unfolding q [symmetric] by simp
  have lo: "32 \<le> n div 64" using div_le_mono [OF assms(1), of 64] by simp
  show "32 \<le> n div 64 mod 64" if "n div 4096 = 0"
    using q lo that by simp
  show "n div 64 mod 64 \<le> 31" if "n div 4096 = 13" "n < 55296"
  proof -
    from that(2) have "n div 64 < 864" by (simp add: less_mult_imp_div_less)
    with q that(1) show ?thesis by linarith
  qed
  show "n < 57344" if "n div 4096 = 13"
  proof (rule ccontr)
    assume "\<not> n < 57344"
    then have "57344 \<le> n" by simp
    from div_le_mono [OF this, of 4096] that show False by simp
  qed
qed

lemma utf8_arith4:
  fixes cp :: nat
  assumes "65536 \<le> cp" "cp < 1114112"
  shows "cp div 262144 < 5"
    and "((cp div 262144 * 64 + cp div 4096 mod 64) * 64 + cp div 64 mod 64) * 64 + cp mod 64 = cp"
    and "cp div 262144 = 0 \<Longrightarrow> 16 \<le> cp div 4096 mod 64"
    and "cp div 262144 = 4 \<Longrightarrow> cp div 4096 mod 64 \<le> 15"
proof -
  have q2: "cp div 4096 = cp div 262144 * 64 + cp div 4096 mod 64"
    unfolding div_4096 div_262144 by simp
  have q1: "cp div 64 = cp div 4096 * 64 + cp div 64 mod 64"
    unfolding div_4096 by simp
  show "cp div 262144 < 5" using assms(2) by (simp add: less_mult_imp_div_less)
  show "((cp div 262144 * 64 + cp div 4096 mod 64) * 64 + cp div 64 mod 64) * 64 + cp mod 64 = cp"
    unfolding q2 [symmetric] q1 [symmetric] by simp
  have lo: "16 \<le> cp div 4096" using div_le_mono [OF assms(1), of 4096] by simp
  have hi: "cp div 4096 < 272" using assms(2) by (simp add: less_mult_imp_div_less)
  show "16 \<le> cp div 4096 mod 64" if "cp div 262144 = 0"
    using q2 lo that by simp
  show "cp div 4096 mod 64 \<le> 15" if "cp div 262144 = 4"
    using q2 hi that by linarith
qed

lemma of_char_char_of_small: "n < 256 \<Longrightarrow> (of_char (char_of n) :: nat) = n"
  by simp

lemma utf8_decode_unit:
  assumes "\<not> is_high u" "\<not> is_low u"
  shows "utf8_decode (utf8_unit u @ bs) = u # utf8_decode bs"
proof -
  let ?n = "unat u"
  have n: "?n < 65536" using unsigned_less [of u, where ?'a = nat] by simp
  consider "?n < 128" | "128 \<le> ?n" "?n < 2048" | "2048 \<le> ?n" by linarith
  then show ?thesis
  proof cases
    case 1
    then have e: "utf8_unit u = [char_of ?n]" by (simp add: utf8_unit_def Let_def)
    have b: "(of_char (char_of ?n) :: nat) = ?n" using 1 by (intro of_char_char_of_small) simp
    show ?thesis unfolding e using 1 by (simp add: utf8_decode.simps Let_def b del: of_char_of)
  next
    case 2
    note a = utf8_arith2 [OF 2]
    have e: "utf8_unit u = [char_of (192 + ?n div 64), char_of (128 + ?n mod 64)]"
      using 2 by (simp add: utf8_unit_def Let_def)
    have b1: "(of_char (char_of (192 + ?n div 64)) :: nat) = 192 + ?n div 64"
      using a by (intro of_char_char_of_small) simp
    have b2: "(of_char (char_of (128 + ?n mod 64)) :: nat) = 128 + ?n mod 64"
      by (intro of_char_char_of_small) simp
    show ?thesis unfolding e using a
      by (simp add: utf8_decode.simps Let_def b1 b2 is_cont_def cont_bits_def del: of_char_of)
  next
    case 3
    note a = utf8_arith3 [OF 3 n]
    let ?lead = "224 + ?n div 4096" and ?c = "128 + ?n div 64 mod 64" and ?d = "128 + ?n mod 64"
    have ns: "?n < 55296 \<or> 57344 \<le> ?n"
      using assms by (auto simp: is_high_def is_low_def)
    have e: "utf8_unit u = [char_of ?lead, char_of ?c, char_of ?d]"
      using 3 assms by (simp add: utf8_unit_def Let_def)
    have b1: "(of_char (char_of ?lead) :: nat) = ?lead"
      using a(1) by (intro of_char_char_of_small) simp
    have b2: "(of_char (char_of ?c) :: nat) = ?c"
      by (intro of_char_char_of_small) simp
    have b3: "(of_char (char_of ?d) :: nat) = ?d"
      by (intro of_char_char_of_small) simp
    have ok: "second_ok ?lead (char_of ?c)"
    proof -
      have "?n div 4096 = 0 \<Longrightarrow> 160 \<le> ?c" using a(3) by simp
      moreover have "?n div 4096 = 13 \<Longrightarrow> ?c \<le> 159" using a(4,5) ns by fastforce
      moreover have "?c \<le> 191" by simp
      ultimately show ?thesis using a(1) by (simp add: second_ok_def b2 del: of_char_of)
    qed
    have v: "((?lead - 224) * 64 + cont_bits (char_of ?c)) * 64 + cont_bits (char_of ?d) = ?n"
      using a(2) by (simp add: cont_bits_def b2 b3 del: of_char_of)
    have c: "is_cont (char_of ?d)" by (simp add: is_cont_def b3 del: of_char_of)
    show ?thesis unfolding e using a(1) ok c v
      by (simp add: utf8_decode.simps Let_def b1 del: of_char_of)
  qed
qed

lemma utf8_decode_pair:
  assumes "is_high u" "is_low v"
  shows "utf8_decode (utf8_pair u v @ bs) = u # v # utf8_decode bs"
proof -
  define a where "a = unat u - 55296"
  define b where "b = unat v - 56320"
  define cp where "cp = 65536 + a * 1024 + b"
  have ua: "unat u = 55296 + a" and a: "a < 1024"
    using assms(1) by (auto simp add: a_def is_high_def)
  have vb: "unat v = 56320 + b" and b: "b < 1024"
    using assms(2) by (auto simp add: b_def is_low_def)
  have cp: "65536 \<le> cp" "cp < 1114112" using a b by (simp_all add: cp_def)
  note r = utf8_arith4 [OF cp]
  let ?lead = "240 + cp div 262144" and ?c = "128 + cp div 4096 mod 64"
    and ?d = "128 + cp div 64 mod 64" and ?e = "128 + cp mod 64"
  have e: "utf8_pair u v = [char_of ?lead, char_of ?c, char_of ?d, char_of ?e]"
    by (simp add: utf8_pair_def Let_def cp_def a_def b_def)
  have b1: "(of_char (char_of ?lead) :: nat) = ?lead"
    using r(1) by (intro of_char_char_of_small) simp
  have b2: "(of_char (char_of ?c) :: nat) = ?c" by (intro of_char_char_of_small) simp
  have b3: "(of_char (char_of ?d) :: nat) = ?d" by (intro of_char_char_of_small) simp
  have b4: "(of_char (char_of ?e) :: nat) = ?e" by (intro of_char_char_of_small) simp
  have ok: "second_ok ?lead (char_of ?c)"
  proof -
    have "cp div 262144 = 0 \<Longrightarrow> 144 \<le> ?c" using r(3) by simp
    moreover have "cp div 262144 = 4 \<Longrightarrow> ?c \<le> 143" using r(4) by simp
    moreover have "?c \<le> 191" by simp
    ultimately show ?thesis using r(1) by (simp add: second_ok_def b2 del: of_char_of)
  qed
  have c: "is_cont (char_of ?d)" "is_cont (char_of ?e)"
    by (simp_all add: is_cont_def b3 b4 del: of_char_of)
  have val: "(((?lead - 240) * 64 + cont_bits (char_of ?c)) * 64 + cont_bits (char_of ?d)) * 64
             + cont_bits (char_of ?e) = cp"
    using r(2) by (simp add: cont_bits_def b2 b3 b4 del: of_char_of)
  have "(cp - 65536) div 1024 = a" "(cp - 65536) mod 1024 = b"
    using b by (simp_all add: cp_def)
  then have s: "surrogates_of cp = [u, v]"
    by (simp add: surrogates_of_def ua [symmetric] vb [symmetric])
  show ?thesis unfolding e using r(1) ok c val s
    by (simp add: utf8_decode.simps Let_def b1 del: of_char_of)
qed

text \<open>A string in which every surrogate is half of a pair.\<close>

fun well_formed :: "jsstring \<Rightarrow> bool" where
  "well_formed [] = True"
| "well_formed [u] = (\<not> is_high u \<and> \<not> is_low u)"
| "well_formed (u # v # vs) =
     (if is_high u then is_low v \<and> well_formed vs else \<not> is_low u \<and> well_formed (v # vs))"

lemma utf8_decode_encode_append:
  "well_formed t \<Longrightarrow> utf8_decode (utf8_encode t @ bs) = t @ utf8_decode bs"
proof (induction t rule: well_formed.induct)
  case 1
  show ?case by (simp add: utf8_encode.simps)
next
  case (2 u)
  then show ?case by (simp add: utf8_encode.simps utf8_decode_unit)
next
  case (3 u v vs)
  show ?case
  proof (cases "is_high u")
    case True
    with 3 show ?thesis by (simp add: utf8_encode.simps utf8_decode_pair)
  next
    case False
    with 3 show ?thesis by (simp add: utf8_encode.simps utf8_decode_unit)
  qed
qed

lemma utf8_decode_encode: "well_formed t \<Longrightarrow> utf8_decode (utf8_encode t) = t"
  using utf8_decode_encode_append [of t "[]"] by (simp add: utf8_decode.simps)



subsection \<open>JSON text of the envelope\<close>

lemma parse_string_body_plain:
  "u \<noteq> 0x22 \<Longrightarrow> u \<noteq> 0x5C \<Longrightarrow> 32 \<le> unat u \<Longrightarrow>
   parse_string_body (u # xs) = cons_unit u (parse_string_body xs)"
  by (simp add: parse_string_body.simps)

lemma unat_hex_digit: "d < 16 \<Longrightarrow> unat (hex_digit d) = (if d < 10 then 48 + d else 87 + d)"
proof -
  assume d: "d < 16"
  have "unat (of_nat (48 + d) :: 16 word) = 48 + d" "unat (of_nat (87 + d) :: 16 word) = 87 + d"
    using d by (simp_all only: unat_of_nat) simp_all
  then show ?thesis by (simp only: hex_digit_def split: if_splits) simp
qed

lemma hex_value_hex_digit: "d < 16 \<Longrightarrow> hex_value (hex_digit d) = Some d"
  by (auto simp: hex_value_def Let_def unat_hex_digit)

lemma hex_arith:
  fixes n :: nat
  shows "((n div 4096 * 16 + n div 256 mod 16) * 16 + n div 16 mod 16) * 16 + n mod 16 = n"
proof -
  have a: "n div 256 = n div 16 div 16" by (simp add: div_mult2_eq [symmetric])
  have b: "n div 4096 = n div 16 div 16 div 16" by (simp add: div_mult2_eq [symmetric])
  show ?thesis unfolding a b by simp
qed

lemma parse_unicode_escape:
  "parse_string_body (unicode_escape u @ xs) = cons_unit u (parse_string_body xs)"
proof -
  let ?n = "unat u"
  have n: "?n < 65536" using unsigned_less [of u, where ?'a = nat] by simp
  have d: "?n div 4096 < 16" "?n div 256 mod 16 < 16" "?n div 16 mod 16 < 16" "?n mod 16 < 16"
    using n by (simp_all add: less_mult_imp_div_less)
  have "parse_string_body (unicode_escape u @ xs)
      = cons_unit (of_nat (((?n div 4096 * 16 + ?n div 256 mod 16) * 16 + ?n div 16 mod 16) * 16
                           + ?n mod 16)) (parse_string_body xs)"
    by (simp add: unicode_escape_def Let_def hex_value_hex_digit d parse_string_body.simps)
  then show ?thesis by (simp only: hex_arith of_nat_unat) simp
qed

lemma parse_quote_unit:
  "parse_string_body (quote_unit u @ xs) = cons_unit u (parse_string_body xs)"
proof -
  consider "u = 0x08" | "u = 0x09" | "u = 0x0A" | "u = 0x0C" | "u = 0x0D" | "u = 0x22" | "u = 0x5C"
    | "u \<noteq> 0x08" "u \<noteq> 0x09" "u \<noteq> 0x0A" "u \<noteq> 0x0C" "u \<noteq> 0x0D" "u \<noteq> 0x22" "u \<noteq> 0x5C"
      "unat u < 0x20 \<or> is_high u \<or> is_low u"
    | "u \<noteq> 0x08" "u \<noteq> 0x09" "u \<noteq> 0x0A" "u \<noteq> 0x0C" "u \<noteq> 0x0D" "u \<noteq> 0x22" "u \<noteq> 0x5C"
      "\<not> (unat u < 0x20 \<or> is_high u \<or> is_low u)"
    by blast
  then show ?thesis
  proof cases
    case 8
    then have "quote_unit u = unicode_escape u" by (simp add: quote_unit_def)
    then show ?thesis by (simp add: parse_unicode_escape)
  next
    case 9
    then have "quote_unit u = [u]" by (simp add: quote_unit_def)
    with 9 show ?thesis by (simp add: parse_string_body_plain)
  qed (simp_all add: quote_unit_def simple_escape_def parse_string_body.simps)
qed

lemma parse_quote_units:
  "parse_string_body (quote_units t @ 0x22 # rest) = Some (t, rest)"
proof (induction t rule: quote_units.induct)
  case 1
  show ?case by (simp add: parse_string_body.simps)
next
  case (2 u)
  show ?case by (simp add: parse_quote_unit cons_unit_def parse_string_body.simps)
next
  case (3 u v vs)
  show ?case
  proof (cases "is_high u \<and> is_low v")
    case True
    then have "u \<noteq> 0x22" "u \<noteq> 0x5C" "32 \<le> unat u" "v \<noteq> 0x22" "v \<noteq> 0x5C" "32 \<le> unat v"
      by (auto simp: is_high_def is_low_def)
    moreover from True have q: "quote_units (u # v # vs) = u # v # quote_units vs" by simp
    moreover note 3(1) [OF True]
    ultimately show ?thesis
      unfolding q by (simp add: cons_unit_def parse_string_body_plain)
  next
    case False
    then have q: "quote_units (u # v # vs) = quote_unit u @ quote_units (v # vs)" by auto
    from 3(2) [OF False] show ?thesis
      unfolding q by (simp add: parse_quote_unit cons_unit_def)
  qed
qed

lemma parse_value_envelope:
  "parse_value (Suc (Suc (Suc (Suc f)))) (envelope m sg)
     = Some (JObj [(js ''manifest'', JStr m), (js ''signature'', JStr sg)], [])"
  by (simp add: envelope_def QuoteJSONString_def skip_ws_def is_ws_def parse_quote_units
        obj_put_def)

lemma JSON_parse_envelope:
  "JSON_parse (envelope m sg) = Inr (JObj [(js ''manifest'', JStr m), (js ''signature'', JStr sg)])"
proof -
  have "1 \<le> length (envelope m sg)" by (simp add: envelope_def)
  then have "2 * length (envelope m sg) + 2
           = Suc (Suc (Suc (Suc (2 * (length (envelope m sg) - 1)))))"
    by arith
  then show ?thesis
    by (simp only: JSON_parse_def parse_value_envelope) (simp add: skip_ws_def)
qed

lemma parse_envelope_envelope:
  "parse_envelope (envelope m sg) = Some \<lparr> manifest = Some (JStr m), signature = Some (JStr sg) \<rparr>"
  by (simp add: parse_envelope_def JSON_parse_envelope get_prop_def)

lemma well_formed_Cons_plain:
  "\<not> is_high u \<Longrightarrow> \<not> is_low u \<Longrightarrow> well_formed (u # t) = well_formed t"
  by (cases t) simp_all

lemma well_formed_pair:
  "is_high u \<Longrightarrow> is_low v \<Longrightarrow> well_formed (u # v # t) = well_formed t"
  by simp

lemma well_formed_append:
  "well_formed a \<Longrightarrow> well_formed b \<Longrightarrow> well_formed (a @ b)"
proof (induction a rule: well_formed.induct)
  case 1
  then show ?case by simp
next
  case (2 u)
  then show ?case by (simp add: well_formed_Cons_plain)
next
  case (3 u v vs)
  show ?case
  proof (cases "is_high u")
    case True
    with 3 show ?thesis by simp
  next
    case False
    with 3 have "well_formed ((v # vs) @ b)" by simp
    with False 3(3) show ?thesis by simp
  qed
qed

lemma plain_small: "unat u < 128 \<Longrightarrow> \<not> is_high u \<and> \<not> is_low u"
  by (simp add: is_high_def is_low_def)

lemma well_formed_unicode_escape: "well_formed (unicode_escape u)"
proof -
  have d: "unat u div 4096 < 16" "unat u div 256 mod 16 < 16" "unat u div 16 mod 16 < 16"
    "unat u mod 16 < 16"
    using unsigned_less [of u, where ?'a = nat] by (simp_all add: less_mult_imp_div_less)
  have h: "\<not> is_high (hex_digit k) \<and> \<not> is_low (hex_digit k)" if "k < 16" for k
    using that by (intro plain_small) (simp add: unat_hex_digit)
  show ?thesis
    by (simp add: unicode_escape_def Let_def well_formed_Cons_plain h d plain_small)
qed

lemma well_formed_quote_unit: "well_formed (quote_unit u)"
  by (simp add: quote_unit_def well_formed_unicode_escape well_formed_Cons_plain plain_small)

lemma well_formed_quote_units: "well_formed (quote_units t)"
proof (induction t rule: quote_units.induct)
  case 1
  show ?case by simp
next
  case (2 u)
  show ?case by (simp add: well_formed_quote_unit)
next
  case (3 u v vs)
  show ?case
  proof (cases "is_high u \<and> is_low v")
    case True
    with 3(1) show ?thesis by simp
  next
    case False
    then have q: "quote_units (u # v # vs) = quote_unit u @ quote_units (v # vs)" by auto
    from 3(2) [OF False] show ?thesis
      unfolding q by (simp add: well_formed_append well_formed_quote_unit)
  qed
qed

lemma well_formed_QuoteJSONString: "well_formed (QuoteJSONString t)"
  by (simp add: QuoteJSONString_def well_formed_Cons_plain plain_small well_formed_append
        well_formed_quote_units)

lemma well_formed_envelope: "well_formed (envelope m sg)"
  by (simp add: envelope_def well_formed_Cons_plain plain_small well_formed_append
        well_formed_QuoteJSONString)

lemma envelope_through_utf8:
  "parse_envelope (utf8_decode (utf8_encode (envelope m sg)))
     = Some \<lparr> manifest = Some (JStr m), signature = Some (JStr sg) \<rparr>"
  by (simp add: utf8_decode_encode well_formed_envelope parse_envelope_envelope)



section \<open>C9 and C10: the WebM marker\<close>

subsection \<open>Finding the marker\<close>

lemma last_index_absent: "c \<notin> set zs \<Longrightarrow> last_index (c # p) zs = None"
  by (induction zs) auto

lemma last_index_found:
  "c \<notin> set (p @ ys) \<Longrightarrow> last_index (c # p) (xs @ c # p @ ys) = Some (length xs)"
proof (induction xs)
  case Nil
  then have "last_index (c # p) (p @ ys) = None" by (rule last_index_absent)
  then show ?case by simp
next
  case (Cons x xs)
  then show ?case by simp
qed

lemma first_index_found:
  "c \<notin> set xs \<Longrightarrow> first_index (c # p) (xs @ c # p @ rest) = Some (length xs)"
  by (induction xs) auto

text \<open>The text appended by one call.\<close>

definition marker :: "jsstring \<Rightarrow> jsstring \<Rightarrow> buffer" where
  "marker m sg = CHR 0x0A # ''<!--TRACEPROV:'' @ base64_chars (utf8_encode (envelope m sg)) @ ''-->''"

lemma b64_text_D:
  "b64_text s \<Longrightarrow> ascii s \<and> CHR ''<'' \<notin> set s \<and> CHR ''-'' \<notin> set s"
  by (auto simp: b64_text_def ascii_def)

lemma embedMetadataWebM_buffer_marker:
  "embedMetadataWebM_buffer fileBuffer m sg = fileBuffer @ marker m sg"
proof -
  let ?B = "base64_chars (utf8_encode (envelope m sg))"
  have t: "0x0A # js ''<!--TRACEPROV:'' @ base64_encode (utf8_encode (envelope m sg)) @ js ''-->''
         = js (CHR 0x0A # ''<!--TRACEPROV:'' @ ?B @ ''-->'')"
    by (simp add: base64_encode_def js_Cons)
  have a: "ascii (CHR 0x0A # ''<!--TRACEPROV:'' @ ?B @ ''-->'')"
    using b64_text_D [OF base64_chars_text [of "utf8_encode (envelope m sg)"]] by simp
  show ?thesis
    unfolding embedMetadataWebM_buffer_def Let_def t utf8_encode_js [OF a] marker_def ..
qed

lemma extract_after_marker:
  "extractMetadataWebM_buffer (fileBuffer @ marker m sg)
     = Some \<lparr> manifest = Some (JStr m), signature = Some (JStr sg) \<rparr>"
proof -
  let ?B = "base64_chars (utf8_encode (envelope m sg))"
  let ?buf = "fileBuffer @ marker m sg"
  note b = b64_text_D [OF base64_chars_text [of "utf8_encode (envelope m sg)"]]
  have tag: "utf8_encode (js ''<!--TRACEPROV:'') = ''<!--TRACEPROV:''"
    by (rule utf8_encode_js) simp
  have close: "utf8_encode (js ''-->'') = ''-->''"
    by (rule utf8_encode_js) simp
  have buf: "?buf = (fileBuffer @ [CHR 0x0A]) @ CHR ''<'' # ''!--TRACEPROV:'' @ (?B @ ''-->'')"
    by (simp add: marker_def)
  have li: "lastIndexOf ?buf ''<!--TRACEPROV:'' = Some (length fileBuffer + 1)"
  proof -
    have "CHR ''<'' \<notin> set (''!--TRACEPROV:'' @ (?B @ ''-->''))" using b by simp
    from last_index_found [OF this, of "fileBuffer @ [CHR 0x0A]"]
    show ?thesis unfolding lastIndexOf_def buf by simp
  qed
  let ?start = "length fileBuffer + 1 + length ''<!--TRACEPROV:''"
  have dr: "drop ?start ?buf = ?B @ ''-->''"
    by (simp add: marker_def)
  have fi: "indexOf ?buf ''-->'' ?start = Some (?start + length ?B)"
  proof -
    have "CHR ''-'' \<notin> set ?B" using b by simp
    from first_index_found [OF this, of "''->''" "[]"]
    show ?thesis unfolding indexOf_def dr by simp
  qed
  have sub: "subarray ?buf ?start (?start + length ?B) = ?B"
    unfolding subarray_def dr by simp
  have dec: "utf8_decode ?B = js ?B" using b by (simp add: utf8_decode_ascii)
  show ?thesis
    unfolding extractMetadataWebM_buffer_def Let_def tag close li
    by (simp only: option.case fi sub dec base64_decode_encode envelope_through_utf8)
qed

text \<open>The number of positions at which a pattern stands in a buffer, and the marker
  prefixes of a file; a file stamped with a list of pairs, one call after the other.\<close>

fun count_occ :: "buffer \<Rightarrow> buffer \<Rightarrow> nat" where
  "count_occ pat [] = 0"
| "count_occ pat (x # xs) = (if take (length pat) (x # xs) = pat then 1 else 0) + count_occ pat xs"

definition count_markers :: "buffer \<Rightarrow> nat" where
  "count_markers buf = count_occ ''<!--TRACEPROV:'' buf"

definition embed_all :: "buffer \<Rightarrow> (jsstring \<times> jsstring) list \<Rightarrow> buffer" where
  "embed_all fileBuffer ps =
     foldl (\<lambda>b p. embedMetadataWebM_buffer b (fst p) (snd p)) fileBuffer ps"

lemma count_occ_absent: "c \<notin> set zs \<Longrightarrow> count_occ (c # p) zs = 0"
  by (induction zs) auto

lemma take_pat_across:
  assumes "sep \<notin> set pat"
  shows "take (length pat) (xs @ sep # ys) = pat \<longleftrightarrow> take (length pat) xs = pat"
proof (cases "length pat \<le> length xs")
  case True
  then show ?thesis by simp
next
  case False
  then have l: "length xs < length pat" by simp
  have "take (length pat) xs \<noteq> pat"
  proof
    assume "take (length pat) xs = pat"
    then have "length (take (length pat) xs) = length pat" by simp
    with l show False by simp
  qed
  moreover have "take (length pat) (xs @ sep # ys) \<noteq> pat"
  proof
    assume e: "take (length pat) (xs @ sep # ys) = pat"
    have "take (length pat) (xs @ sep # ys) ! length xs = sep"
      using l by (simp add: nth_append)
    moreover have "length xs < length (take (length pat) (xs @ sep # ys))" using l by simp
    ultimately have "sep \<in> set (take (length pat) (xs @ sep # ys))" by (metis nth_mem)
    with e assms show False by simp
  qed
  ultimately show ?thesis by simp
qed

lemma count_occ_across:
  "sep \<notin> set pat \<Longrightarrow>
   count_occ pat (xs @ sep # ys) = count_occ pat xs + count_occ pat (sep # ys)"
proof (induction xs)
  case Nil
  show ?case by simp
next
  case (Cons x xs)
  from take_pat_across [OF Cons.prems, of "x # xs" ys]
  have "take (length pat) (x # xs @ sep # ys) = pat \<longleftrightarrow> take (length pat) (x # xs) = pat"
    by simp
  with Cons show ?case by simp
qed

lemma count_markers_marker: "count_markers (xs @ marker m sg) = count_markers xs + 1"
proof -
  let ?B = "base64_chars (utf8_encode (envelope m sg))"
  note b = b64_text_D [OF base64_chars_text [of "utf8_encode (envelope m sg)"]]
  have "CHR ''<'' \<notin> set (''!--TRACEPROV:'' @ ?B @ ''-->'')" using b by simp
  then have z: "count_occ ''<!--TRACEPROV:'' (''!--TRACEPROV:'' @ ?B @ ''-->'') = 0"
    by (rule count_occ_absent)
  have one: "count_occ ''<!--TRACEPROV:'' (CHR 0x0A # ''<!--TRACEPROV:'' @ ?B @ ''-->'') = 1"
    using z by simp
  have sep: "CHR 0x0A \<notin> set ''<!--TRACEPROV:''" by simp
  show ?thesis
    unfolding count_markers_def marker_def count_occ_across [OF sep] one ..
qed

lemma embed_all_snoc: "embed_all fileBuffer (ps @ [(m, sg)]) = embed_all fileBuffer ps @ marker m sg"
  by (simp add: embed_all_def embedMetadataWebM_buffer_marker)

lemma count_markers_embed_all:
  "count_markers (embed_all fileBuffer ps) = count_markers fileBuffer + length ps"
proof (induction ps rule: rev_induct)
  case Nil
  show ?case by (simp add: embed_all_def)
next
  case (snoc p ps)
  obtain m sg where p: "p = (m, sg)" by (cases p)
  show ?case unfolding p embed_all_snoc count_markers_marker using snoc by simp
qed


subsection \<open>C9: embedding into a WebM file and extracting again\<close>

text \<open>
  C9. \<open>embedMetadataWebM\<close> writes the file back with a line feed and the marker
  \<open><!--TRACEPROV:\<close>, the base64 text of the UTF-8 bytes of the JSON envelope, and
  \<open>-->\<close> appended to its bytes. From that file \<open>extractMetadataWebM\<close> returns the
  manifest and signature that were embedded, for every file and every pair of strings:
  the last occurrence of the prefix is the one just appended and the first \<open>-->\<close> after
  it closes it, since base64 text holds neither \<open><\<close> nor \<open>-\<close>; decoding the base64
  and the UTF-8 and parsing the JSON give the pair back.
\<close>

theorem embedMetadataWebM_then_extract:
  "embedMetadataWebM_buffer fileBuffer m sg
     = fileBuffer @ CHR 0x0A # ''<!--TRACEPROV:'' @ base64_chars (utf8_encode (envelope m sg)) @ ''-->'' \<and>
   base64_encode (utf8_encode (envelope m sg)) = js (base64_chars (utf8_encode (envelope m sg))) \<and>
   extractMetadataWebM_buffer (embedMetadataWebM_buffer fileBuffer m sg)
     = Some \<lparr> manifest = Some (JStr m), signature = Some (JStr sg) \<rparr> \<and>
   (fs videoPath = Some fileBuffer \<longrightarrow>
      embedMetadataWebM fs videoPath m sg
        = (Inr (), fs(videoPath \<mapsto> embedMetadataWebM_buffer fileBuffer m sg)) \<and>
      extractMetadataWebM (snd (embedMetadataWebM fs videoPath m sg)) videoPath
        = Inr (Some \<lparr> manifest = Some (JStr m), signature = Some (JStr sg) \<rparr>))"
proof -
  have e: "extractMetadataWebM_buffer (embedMetadataWebM_buffer fileBuffer m sg)
     = Some \<lparr> manifest = Some (JStr m), signature = Some (JStr sg) \<rparr>"
    by (simp only: embedMetadataWebM_buffer_marker extract_after_marker)
  show ?thesis
    using e
    by (simp add: embedMetadataWebM_buffer_marker marker_def base64_encode_def
          embedMetadataWebM_def extractMetadataWebM_def fs_eval)
qed


text \<open>An instance: the file \<open>webm\<close> stamped with \<open>("m", "s")\<close>.\<close>

theorem embedMetadataWebM_then_extract_witness:
  "[js ''clip.webm'' \<mapsto> ''webm''] (js ''clip.webm'') = Some ''webm'' \<and>
   embedMetadataWebM_buffer ''webm'' (js ''m'') (js ''s'')
     = ''webm'' @ CHR 0x0A # ''<!--TRACEPROV:eyJtYW5pZmVzdCI6Im0iLCJzaWduYXR1cmUiOiJzIn0=-->'' \<and>
   extractMetadataWebM (snd (embedMetadataWebM [js ''clip.webm'' \<mapsto> ''webm''] (js ''clip.webm'')
        (js ''m'') (js ''s''))) (js ''clip.webm'')
     = Inr (Some \<lparr> manifest = Some (JStr (js ''m'')), signature = Some (JStr (js ''s'')) \<rparr>)"
proof -
  have h: "[js ''clip.webm'' \<mapsto> ''webm''] (js ''clip.webm'') = Some ''webm''" by simp
  have b: "base64_chars (utf8_encode (envelope (js ''m'') (js ''s'')))
             = ''eyJtYW5pZmVzdCI6Im0iLCJzaWduYXR1cmUiOiJzIn0=''"
    unfolding envelope_m_s by (simp add: b64_char_def char_of_eq_iff)
  note t = embedMetadataWebM_then_extract
             [where fileBuffer = "''webm''" and m = "js ''m''" and sg = "js ''s''"
                and fs = "[js ''clip.webm'' \<mapsto> ''webm'']" and videoPath = "js ''clip.webm''"]
  from t have "embedMetadataWebM_buffer ''webm'' (js ''m'') (js ''s'')
     = ''webm'' @ CHR 0x0A # ''<!--TRACEPROV:eyJtYW5pZmVzdCI6Im0iLCJzaWduYXR1cmUiOiJzIn0=-->''"
    unfolding b by simp
  moreover from t h have "extractMetadataWebM (snd (embedMetadataWebM [js ''clip.webm'' \<mapsto> ''webm'']
        (js ''clip.webm'') (js ''m'') (js ''s''))) (js ''clip.webm'')
     = Inr (Some \<lparr> manifest = Some (JStr (js ''m'')), signature = Some (JStr (js ''s'')) \<rparr>)"
    by blast
  ultimately show ?thesis using h by blast
qed


subsection \<open>C10: stamping a WebM file again\<close>

text \<open>
  C10. Each call of \<open>embedMetadataWebM\<close> appends its marker after everything the file
  held, earlier markers included: nothing is removed or replaced, and the number of
  marker prefixes in the file grows by one with every call. After any number of calls
  \<open>extractMetadataWebM\<close> returns the pair of the last call.
\<close>

theorem embedMetadataWebM_restamp_appends:
  "count_markers (embed_all fileBuffer ps) = count_markers fileBuffer + length ps \<and>
   embed_all fileBuffer (ps @ [(m, sg)]) = embed_all fileBuffer ps @ marker m sg \<and>
   extractMetadataWebM_buffer (embed_all fileBuffer (ps @ [(m, sg)]))
     = Some \<lparr> manifest = Some (JStr m), signature = Some (JStr sg) \<rparr>"
  by (simp only: count_markers_embed_all embed_all_snoc extract_after_marker)


text \<open>An instance: the file \<open>webm\<close> stamped with \<open>("m", "s")\<close> and then with
  \<open>("n", "t")\<close> holds two markers, and the second pair is extracted.\<close>

theorem embedMetadataWebM_restamp_appends_witness:
  "count_markers (embed_all ''webm'' ([(js ''m'', js ''s'')] @ [(js ''n'', js ''t'')])) = 2 \<and>
   extractMetadataWebM_buffer (embed_all ''webm'' ([(js ''m'', js ''s'')] @ [(js ''n'', js ''t'')]))
     = Some \<lparr> manifest = Some (JStr (js ''n'')), signature = Some (JStr (js ''t'')) \<rparr>"
proof -
  have z: "count_markers ''webm'' = 0" by (simp add: count_markers_def)
  from embedMetadataWebM_restamp_appends
         [of "''webm''" "[(js ''m'', js ''s'')] @ [(js ''n'', js ''t'')]"]
  have "count_markers (embed_all ''webm'' ([(js ''m'', js ''s'')] @ [(js ''n'', js ''t'')])) = 2"
    using z by simp
  moreover from embedMetadataWebM_restamp_appends
         [of "''webm''" "[(js ''m'', js ''s'')]" "js ''n''" "js ''t''"]
  have "extractMetadataWebM_buffer (embed_all ''webm'' ([(js ''m'', js ''s'')] @ [(js ''n'', js ''t'')]))
     = Some \<lparr> manifest = Some (JStr (js ''n'')), signature = Some (JStr (js ''t'')) \<rparr>"
    by blast
  ultimately show ?thesis by blast
qed

end
